theory Spec2Isabelle
  imports Complex_Main "HOL-Library.Word" "HOL-Library.Signed_Division"
begin

section \<open>The circular buffer of p2\_ring.cpp\<close>

text \<open>
  \<^verbatim>\<open>struct Ring\<close> holds an array of \<^verbatim>\<open>QUEUE_SIZE\<close> ints, three \<^verbatim>\<open>size_t\<close>
  indices, two stop flags and four \<^verbatim>\<open>long\<close> statistics. The \<^verbatim>\<open>size_t\<close> fields are
  64-bit words, so that \<^verbatim>\<open>count--\<close> at zero and \<^verbatim>\<open>count++\<close> at the top would wrap
  as they do in the program. The array is a store from index to value. The \<^verbatim>\<open>long\<close>
  statistics only ever grow by one per call; they are integers, and
  \<open>ring_totals_bounded\<close> below bounds them by the number of calls made.

  Every function of the file takes the mutex on entry and gives it up only inside
  \<^verbatim>\<open>pthread_cond_wait\<close> or on return. The code between two such points runs
  atomically, and that is the unit modelled here: one \<^emph>\<open>attempt\<close> evaluates the
  \<^verbatim>\<open>while\<close> test once and either goes to sleep on the condition variable
  (\<open>Waiting\<close>; the thread makes its next attempt when it wakes, be the wake-up
  signalled or spurious) or runs to the \<^verbatim>\<open>return\<close> (\<open>Returned\<close>). Any
  interleaving of threads is a sequence of such attempts.
\<close>

definition QUEUE_SIZE :: "64 word" where
  "QUEUE_SIZE = 1024"

record Ring =
  buffer :: "64 word \<Rightarrow> int"
  head :: "64 word"
  tail :: "64 word"
  count :: "64 word"
  stop_requested :: bool
  force_stop :: bool
  total_produced :: int
  total_consumed :: int
  producer_blocks :: int
  consumer_blocks :: int

datatype 'a attempt = Returned 'a | Waiting

text \<open>A fresh \<^verbatim>\<open>Ring ring;\<close>: the member initialisers, and an array that nothing has
  written yet.\<close>

definition ring_init :: "(64 word \<Rightarrow> int) \<Rightarrow> Ring" where
  "ring_init buf =
     \<lparr>buffer = buf, head = 0, tail = 0, count = 0,
      stop_requested = False, force_stop = False,
      total_produced = 0, total_consumed = 0,
      producer_blocks = 0, consumer_blocks = 0\<rparr>"

definition ring_push :: "Ring \<Rightarrow> int \<Rightarrow> bool attempt \<times> Ring" where
  "ring_push ring v =
     (if count ring = QUEUE_SIZE \<and> \<not> stop_requested ring \<and> \<not> force_stop ring
      then (Waiting, ring\<lparr>producer_blocks := producer_blocks ring + 1\<rparr>)
      else if stop_requested ring \<or> force_stop ring
      then (Returned False, ring)
      else (Returned True,
            ring\<lparr>buffer := (buffer ring)(head ring := v),
                 head := (head ring + 1) mod QUEUE_SIZE,
                 count := count ring + 1,
                 total_produced := total_produced ring + 1\<rparr>))"

text \<open>\<^verbatim>\<open>ring_pop\<close> writes the value through \<^verbatim>\<open>output\<close> and returns \<^verbatim>\<open>true\<close>, or
  returns \<^verbatim>\<open>false\<close> and leaves \<^verbatim>\<open>*output\<close> alone: an optional value.\<close>

definition ring_pop :: "Ring \<Rightarrow> int option attempt \<times> Ring" where
  "ring_pop ring =
     (if count ring = 0 \<and> \<not> stop_requested ring \<and> \<not> force_stop ring
      then (Waiting, ring\<lparr>consumer_blocks := consumer_blocks ring + 1\<rparr>)
      else if count ring = 0 \<and> (stop_requested ring \<or> force_stop ring)
      then (Returned None, ring)
      else (Returned (Some (buffer ring (tail ring))),
            ring\<lparr>tail := (tail ring + 1) mod QUEUE_SIZE,
                 count := count ring - 1,
                 total_consumed := total_consumed ring + 1\<rparr>))"

definition ring_shutdown :: "Ring \<Rightarrow> Ring" where
  "ring_shutdown ring = ring\<lparr>stop_requested := True\<rparr>"

definition ring_force_stop :: "Ring \<Rightarrow> Ring" where
  "ring_force_stop ring = ring\<lparr>force_stop := True\<rparr>"

text \<open>The calls that threads make on one ring, in the order in which they get the
  mutex.\<close>

datatype ring_op = Push int | Pop | Shutdown | ForceStop

fun ring_step :: "Ring \<Rightarrow> ring_op \<Rightarrow> Ring" where
  "ring_step r (Push v) = snd (ring_push r v)"
| "ring_step r Pop = snd (ring_pop r)"
| "ring_step r Shutdown = ring_shutdown r"
| "ring_step r ForceStop = ring_force_stop r"

fun ring_exec :: "Ring \<Rightarrow> ring_op list \<Rightarrow> Ring" where
  "ring_exec r [] = r"
| "ring_exec r (x # xs) = ring_exec (ring_step r x) xs"

text \<open>The values whose \<^verbatim>\<open>ring_push\<close> returned \<^verbatim>\<open>true\<close>, and the values that
  \<^verbatim>\<open>ring_pop\<close> handed out, each in the order of the calls.\<close>

fun ring_pushed :: "Ring \<Rightarrow> ring_op list \<Rightarrow> int list" where
  "ring_pushed r [] = []"
| "ring_pushed r (x # xs) =
     (case x of
        Push v \<Rightarrow> (if fst (ring_push r v) = Returned True then [v] else [])
      | _ \<Rightarrow> [])
     @ ring_pushed (ring_step r x) xs"

fun ring_popped :: "Ring \<Rightarrow> ring_op list \<Rightarrow> int list" where
  "ring_popped r [] = []"
| "ring_popped r (x # xs) =
     (case x of
        Pop \<Rightarrow> (case fst (ring_pop r) of Returned (Some v) \<Rightarrow> [v] | _ \<Rightarrow> [])
      | _ \<Rightarrow> [])
     @ ring_popped (ring_step r x) xs"

text \<open>What the ring holds, oldest first: \<^verbatim>\<open>count\<close> cells from \<^verbatim>\<open>tail\<close> on, around
  the end of the array.\<close>

definition ring_contents :: "Ring \<Rightarrow> int list" where
  "ring_contents r =
     map (\<lambda>i. buffer r (word_of_nat ((unat (tail r) + i) mod 1024))) [0..<unat (count r)]"

text \<open>The part of a ring that is the queue: everything but the two block counters,
  which count how often a caller went to sleep.\<close>

definition ring_queue ::
  "Ring \<Rightarrow> (64 word \<Rightarrow> int) \<times> 64 word \<times> 64 word \<times> 64 word \<times> bool \<times> bool \<times> int \<times> int" where
  "ring_queue r =
     (buffer r, head r, tail r, count r, stop_requested r, force_stop r,
      total_produced r, total_consumed r)"

definition ring_inv :: "Ring \<Rightarrow> bool" where
  "ring_inv r \<longleftrightarrow>
     unat (head r) < 1024 \<and> unat (tail r) < 1024 \<and> unat (count r) \<le> 1024 \<and>
     unat (head r) = (unat (tail r) + unat (count r)) mod 1024"

text \<open>The statistics account for what the ring holds.\<close>

definition ring_accounted :: "Ring \<Rightarrow> bool" where
  "ring_accounted r \<longleftrightarrow> total_produced r - total_consumed r = uint (count r)"

text \<open>A ring after 1024 pushes of 0 and no pop: full, with \<^verbatim>\<open>head\<close> back at 0.\<close>

definition ring_full :: Ring where
  "ring_full = (ring_init (\<lambda>_. 0))\<lparr>count := 1024, total_produced := 1024\<rparr>"

section \<open>The pipeline of p5\_pipeline.cpp\<close>

definition DEFAULT_TICKS :: nat where
  "DEFAULT_TICKS = 1000"

definition BUFFER_SIZE :: nat where
  "BUFFER_SIZE = 100"

subsection \<open>Data\<close>

text \<open>
  \<^verbatim>\<open>double\<close> and \<^verbatim>\<open>steady_clock::time_point\<close> are type parameters \<open>'d\<close> and \<open>'t\<close>.
  What the program does with them (comparisons, sums, the library's mathematics, the
  clock and the random generator) is a record of operations that every stage
  function takes, so that nothing below depends on how floating point rounds.
\<close>

record ('d, 't) DataItem =
  item_id :: int
  raw_value :: int
  processed_value :: 'd
  is_valid :: bool
  timestamp :: 't

record 'd PipelineStats =
  items_generated :: int
  items_processed :: int
  items_filtered :: int
  barrier_waits :: int
  total_latency_ms :: 'd

record ('d, 't) platform =
  d_zero :: 'd  \<comment> \<open>the literal \<^verbatim>\<open>0.0\<close>\<close>
  d_tenth :: 'd  \<comment> \<open>the literal \<^verbatim>\<open>0.1\<close>\<close>
  d_hundred :: 'd  \<comment> \<open>the literal \<^verbatim>\<open>100.0\<close>\<close>
  d_less :: "'d \<Rightarrow> 'd \<Rightarrow> bool"  \<comment> \<open>\<^verbatim>\<open>a < b\<close>, and \<^verbatim>\<open>b > a\<close>\<close>
  d_add :: "'d \<Rightarrow> 'd \<Rightarrow> 'd"  \<comment> \<open>\<^verbatim>\<open>a + b\<close>\<close>
  d_fabs :: "'d \<Rightarrow> 'd"  \<comment> \<open>\<^verbatim>\<open>fabs(a)\<close>\<close>
  base_times_log :: "int \<Rightarrow> 'd"
    \<comment> \<open>of \<^verbatim>\<open>raw\<close>: \<^verbatim>\<open>lookup_table[raw % DATA_RANGE] * log(raw + 1)\<close>\<close>
  sin_times_cos :: "int \<Rightarrow> int \<Rightarrow> 'd"
    \<comment> \<open>of \<^verbatim>\<open>raw\<close> and \<^verbatim>\<open>id\<close>: \<^verbatim>\<open>sin(raw * 0.01) * cos(id * 0.02)\<close>\<close>
  busy_total :: "int \<Rightarrow> 'd"
    \<comment> \<open>of \<^verbatim>\<open>raw\<close>: \<^verbatim>\<open>temp * 1e-6\<close> after the loop that sums \<^verbatim>\<open>sqrt(i + raw)\<close>\<close>
  elapsed_ms :: "'t \<Rightarrow> 't \<Rightarrow> 'd"
    \<comment> \<open>of \<^verbatim>\<open>now\<close> and \<^verbatim>\<open>ts\<close>: \<^verbatim>\<open>duration<double, std::milli>(now - ts).count()\<close>\<close>
  rng_draw :: "nat \<Rightarrow> int"  \<comment> \<open>the value of the k-th \<^verbatim>\<open>value_dist(*global_rng)\<close>\<close>
  clock_generate :: "nat \<Rightarrow> 't"  \<comment> \<open>the clock when tick k builds its item\<close>
  clock_filter :: "nat \<Rightarrow> 't"  \<comment> \<open>the clock when tick k's item passes the filter\<close>

text \<open>The constructor \<^verbatim>\<open>DataItem(int _id, int _val)\<close>.\<close>

definition new_DataItem :: "('d, 't) platform \<Rightarrow> 't \<Rightarrow> int \<Rightarrow> int \<Rightarrow> ('d, 't) DataItem" where
  "new_DataItem P now i v =
     \<lparr>item_id = i, raw_value = v, processed_value = d_zero P, is_valid = False,
      timestamp = now\<rparr>"

text \<open>The globals that the stages share, and the two locals of
  \<^verbatim>\<open>stage_filter_reduce\<close> that outlive a tick.\<close>

record ('d, 't) Pipeline =
  stage1_to_stage2 :: "('d, 't) DataItem list"
  stage2_to_stage3 :: "('d, 't) DataItem list"
  pipeline_shutdown :: bool
  pipeline_stats :: "'d PipelineStats"
  filtered_count :: int
  accumulated_result :: 'd

subsection \<open>The buffers between the stages\<close>

text \<open>
  The four buffer functions are two pairs of the same code on two queues. One attempt
  is again the code between two points where the mutex is free. \<open>expired\<close> says that
  the attempt starts where \<^verbatim>\<open>pthread_cond_timedwait\<close> has just returned non-zero,
  the deadline having passed; otherwise it starts at the \<^verbatim>\<open>while\<close> test, on entry
  or after a wake-up. The capacity is an argument, and the program's buffers have
  \<open>BUFFER_SIZE\<close>. The line written to the log file after a push is output only and
  is left out.
\<close>

definition buffer_push :: "nat \<Rightarrow> bool \<Rightarrow> 'a \<Rightarrow> bool \<Rightarrow> 'a list \<Rightarrow> bool attempt \<times> 'a list" where
  "buffer_push cap expired item shutdown q =
     (if expired then (Returned False, q)
      else if length q \<ge> cap \<and> \<not> shutdown then (Waiting, q)
      else if shutdown then (Returned False, q)
      else (Returned True, q @ [item]))"

definition buffer_pop :: "bool \<Rightarrow> bool \<Rightarrow> 'a list \<Rightarrow> 'a option attempt \<times> 'a list" where
  "buffer_pop expired shutdown q =
     (if expired then (Returned None, q)
      else if q = [] \<and> \<not> shutdown then (Waiting, q)
      else (case q of [] \<Rightarrow> (Returned None, q) | x # rest \<Rightarrow> (Returned (Some x), rest)))"

definition push_to_buffer1 ::
  "bool \<Rightarrow> ('d, 't) DataItem \<Rightarrow> ('d, 't) Pipeline \<Rightarrow> bool attempt \<times> ('d, 't) Pipeline" where
  "push_to_buffer1 expired item s =
     (case buffer_push BUFFER_SIZE expired item (pipeline_shutdown s) (stage1_to_stage2 s) of
        (res, q) \<Rightarrow> (res, s\<lparr>stage1_to_stage2 := q\<rparr>))"

definition pop_from_buffer1 ::
  "bool \<Rightarrow> ('d, 't) Pipeline \<Rightarrow> ('d, 't) DataItem option attempt \<times> ('d, 't) Pipeline" where
  "pop_from_buffer1 expired s =
     (case buffer_pop expired (pipeline_shutdown s) (stage1_to_stage2 s) of
        (res, q) \<Rightarrow> (res, s\<lparr>stage1_to_stage2 := q\<rparr>))"

definition push_to_buffer2 ::
  "bool \<Rightarrow> ('d, 't) DataItem \<Rightarrow> ('d, 't) Pipeline \<Rightarrow> bool attempt \<times> ('d, 't) Pipeline" where
  "push_to_buffer2 expired item s =
     (case buffer_push BUFFER_SIZE expired item (pipeline_shutdown s) (stage2_to_stage3 s) of
        (res, q) \<Rightarrow> (res, s\<lparr>stage2_to_stage3 := q\<rparr>))"

definition pop_from_buffer2 ::
  "bool \<Rightarrow> ('d, 't) Pipeline \<Rightarrow> ('d, 't) DataItem option attempt \<times> ('d, 't) Pipeline" where
  "pop_from_buffer2 expired s =
     (case buffer_pop expired (pipeline_shutdown s) (stage2_to_stage3 s) of
        (res, q) \<Rightarrow> (res, s\<lparr>stage2_to_stage3 := q\<rparr>))"

definition request_pipeline_shutdown :: "('d, 't) Pipeline \<Rightarrow> ('d, 't) Pipeline" where
  "request_pipeline_shutdown s = s\<lparr>pipeline_shutdown := True\<rparr>"

text \<open>The attempts that threads make on one buffer, in the order in which they get
  its mutex; the state is the queue and the shutdown flag.\<close>

datatype 'a buffer_op = Push_attempt bool 'a | Pop_attempt bool | Request_shutdown

fun buffer_step :: "nat \<Rightarrow> 'a list \<times> bool \<Rightarrow> 'a buffer_op \<Rightarrow> 'a list \<times> bool" where
  "buffer_step cap (q, sd) (Push_attempt e x) = (snd (buffer_push cap e x sd q), sd)"
| "buffer_step cap (q, sd) (Pop_attempt e) = (snd (buffer_pop e sd q), sd)"
| "buffer_step cap (q, sd) Request_shutdown = (q, True)"

fun buffer_exec :: "nat \<Rightarrow> 'a list \<times> bool \<Rightarrow> 'a buffer_op list \<Rightarrow> 'a list \<times> bool" where
  "buffer_exec cap st [] = st"
| "buffer_exec cap st (x # xs) = buffer_exec cap (buffer_step cap st x) xs"

fun buffer_pushed :: "nat \<Rightarrow> 'a list \<times> bool \<Rightarrow> 'a buffer_op list \<Rightarrow> 'a list" where
  "buffer_pushed cap st [] = []"
| "buffer_pushed cap st (x # xs) =
     (case x of
        Push_attempt e v \<Rightarrow>
          (if fst (buffer_push cap e v (snd st) (fst st)) = Returned True then [v] else [])
      | _ \<Rightarrow> [])
     @ buffer_pushed cap (buffer_step cap st x) xs"

fun buffer_popped :: "nat \<Rightarrow> 'a list \<times> bool \<Rightarrow> 'a buffer_op list \<Rightarrow> 'a list" where
  "buffer_popped cap st [] = []"
| "buffer_popped cap st (x # xs) =
     (case x of
        Pop_attempt e \<Rightarrow>
          (case fst (buffer_pop e (snd st) (fst st)) of Returned (Some v) \<Rightarrow> [v] | _ \<Rightarrow> [])
      | _ \<Rightarrow> [])
     @ buffer_popped cap (buffer_step cap st x) xs"

text \<open>
  A whole call made while no other thread touches the buffer: the first attempt, and
  if that one waits, the wait can only end with the deadline. (A wake-up before the
  deadline makes the same test on the same state and waits again.) \<open>f\<close> is the
  buffer function with its arguments but for \<open>expired\<close> and the state; the attempt
  after the deadline always returns, and \<open>unused\<close> fills the case that it does not.
\<close>

definition whole_call :: "(bool \<Rightarrow> 's \<Rightarrow> 'r attempt \<times> 's) \<Rightarrow> 'r \<Rightarrow> 's \<Rightarrow> 'r \<times> 's" where
  "whole_call f unused s =
     (case f False s of
        (Returned r, s') \<Rightarrow> (r, s')
      | (Waiting, s') \<Rightarrow>
          (case f True s' of
             (Returned r, s'') \<Rightarrow> (r, s'')
           | (Waiting, s'') \<Rightarrow> (unused, s'')))"

definition push_alone :: "nat \<Rightarrow> 'a \<Rightarrow> bool \<Rightarrow> 'a list \<Rightarrow> bool \<times> 'a list" where
  "push_alone cap item shutdown q =
     whole_call (\<lambda>expired. buffer_push cap expired item shutdown) False q"

text \<open>A producer with nobody consuming: it pushes its items in order and stops at
  the first \<^verbatim>\<open>false\<close>, as \<^verbatim>\<open>stage_generator\<close> does. The result is what each call
  returned, and the queue at the end.\<close>

fun produce_alone :: "nat \<Rightarrow> bool \<Rightarrow> 'a list \<Rightarrow> 'a list \<Rightarrow> bool list \<times> 'a list" where
  "produce_alone cap shutdown q [] = ([], q)"
| "produce_alone cap shutdown q (x # xs) =
     (case push_alone cap x shutdown q of
        (True, q') \<Rightarrow> (case produce_alone cap shutdown q' xs of (rs, q'') \<Rightarrow> (True # rs, q''))
      | (False, q') \<Rightarrow> ([False], q'))"

subsection \<open>The stages\<close>

text \<open>
  Each stage function is a \<^verbatim>\<open>for\<close> loop over ticks; the functions below are one
  pass through the loop body, returning whether the loop goes on (\<open>False\<close> is the
  \<^verbatim>\<open>break\<close>). The \<^verbatim>\<open>printf\<close>s, the log file and \<^verbatim>\<open>usleep\<close> are left out. The buffer
  calls are whole calls as in \<open>whole_call\<close>.
\<close>

definition bump_generated :: "'d PipelineStats \<Rightarrow> 'd PipelineStats" where
  "bump_generated st = st\<lparr>items_generated := items_generated st + 1\<rparr>"

definition bump_processed :: "'d PipelineStats \<Rightarrow> 'd PipelineStats" where
  "bump_processed st = st\<lparr>items_processed := items_processed st + 1\<rparr>"

definition bump_filtered :: "'d PipelineStats \<Rightarrow> 'd PipelineStats" where
  "bump_filtered st = st\<lparr>items_filtered := items_filtered st + 1\<rparr>"

definition bump_barrier :: "'d PipelineStats \<Rightarrow> 'd PipelineStats" where
  "bump_barrier st = st\<lparr>barrier_waits := barrier_waits st + 1\<rparr>"

definition add_latency :: "('d, 't) platform \<Rightarrow> 'd \<Rightarrow> 'd PipelineStats \<Rightarrow> 'd PipelineStats" where
  "add_latency P latency_ms st = st\<lparr>total_latency_ms := d_add P (total_latency_ms st) latency_ms\<rparr>"

text \<open>\<^verbatim>\<open>stage_generator\<close>, one tick.\<close>

definition generator_tick ::
  "('d, 't) platform \<Rightarrow> nat \<Rightarrow> ('d, 't) Pipeline \<Rightarrow> bool \<times> ('d, 't) Pipeline" where
  "generator_tick P tick s =
     (let raw = rng_draw P tick;
          item = new_DataItem P (clock_generate P tick) (int tick) raw
      in case whole_call (\<lambda>expired. push_to_buffer1 expired item) False s of
           (False, s1) \<Rightarrow> (False, s1)
         | (True, s1) \<Rightarrow>
             (True, s1\<lparr>pipeline_stats := bump_barrier (bump_generated (pipeline_stats s1))\<rparr>))"

text \<open>
  Between the pop and the push, \<^verbatim>\<open>stage_processor\<close> computes the new
  \<^verbatim>\<open>item.processed_value\<close> on its own copy of the item in four statements
  (\<^verbatim>\<open>=\<close>, \<^verbatim>\<open>+=\<close>, \<^verbatim>\<open>= fabs(...)\<close>, \<^verbatim>\<open>+=\<close>), each from the item as it is then, and
  touches no other field.
\<close>

definition process :: "('d, 't) platform \<Rightarrow> ('d, 't) DataItem \<Rightarrow> ('d, 't) DataItem" where
  "process P item =
     (let item1 = item\<lparr>processed_value := base_times_log P (raw_value item)\<rparr>;
          item2 = item1\<lparr>processed_value :=
                    d_add P (processed_value item1)
                      (sin_times_cos P (raw_value item1) (item_id item1))\<rparr>;
          item3 = item2\<lparr>processed_value := d_fabs P (processed_value item2)\<rparr>;
          item4 = item3\<lparr>processed_value :=
                    d_add P (processed_value item3) (busy_total P (raw_value item3))\<rparr>
      in item4)"

text \<open>\<^verbatim>\<open>stage_processor\<close>, one tick.\<close>

definition processor_tick ::
  "('d, 't) platform \<Rightarrow> ('d, 't) Pipeline \<Rightarrow> bool \<times> ('d, 't) Pipeline" where
  "processor_tick P s =
     (case whole_call pop_from_buffer1 None s of
        (None, s1) \<Rightarrow> (False, s1)
      | (Some item, s1) \<Rightarrow>
          (case whole_call (\<lambda>expired. push_to_buffer2 expired (process P item)) False s1 of
             (False, s2) \<Rightarrow> (False, s2)
           | (True, s2) \<Rightarrow>
               (True, s2\<lparr>pipeline_stats := bump_barrier (bump_processed (pipeline_stats s2))\<rparr>)))"

text \<open>The filter of \<^verbatim>\<open>stage_filter_reduce\<close>: three nested \<^verbatim>\<open>if\<close>s. \<^verbatim>\<open>%\<close> on
  \<^verbatim>\<open>int\<close> truncates towards zero, which is \<open>smod\<close>.\<close>

definition passes_filter :: "('d, 't) platform \<Rightarrow> ('d, 't) DataItem \<Rightarrow> bool" where
  "passes_filter P item =
     (if d_less P (d_tenth P) (processed_value item) \<and>
         d_less P (processed_value item) (d_hundred P)
      then (if item_id item smod 13 \<noteq> 0
            then (if raw_value item smod 3 = 0 \<or> raw_value item smod 7 = 0 then True
                  else False)
            else False)
      else False)"

text \<open>What \<^verbatim>\<open>stage_filter_reduce\<close> does with the item it has popped, up to the
  update of \<^verbatim>\<open>items_filtered\<close>. \<open>now\<close> is what the clock gives if it is read. The
  item is returned too, as the function leaves it before dropping it.\<close>

definition filter_reduce ::
  "('d, 't) platform \<Rightarrow> 't \<Rightarrow> ('d, 't) DataItem \<Rightarrow> ('d, 't) Pipeline \<Rightarrow>
   ('d, 't) DataItem \<times> ('d, 't) Pipeline" where
  "filter_reduce P now item s =
     (let (item', s1) =
            (if passes_filter P item
             then (item\<lparr>is_valid := True\<rparr>,
                   s\<lparr>filtered_count := filtered_count s + 1,
                     accumulated_result := d_add P (accumulated_result s) (processed_value item),
                     pipeline_stats :=
                       add_latency P (elapsed_ms P now (timestamp item)) (pipeline_stats s)\<rparr>)
             else (item\<lparr>is_valid := False\<rparr>, s))
      in if is_valid item'
         then (item', s1\<lparr>pipeline_stats := bump_filtered (pipeline_stats s1)\<rparr>)
         else (item', s1))"

text \<open>\<^verbatim>\<open>stage_filter_reduce\<close>, one tick.\<close>

definition filter_tick ::
  "('d, 't) platform \<Rightarrow> nat \<Rightarrow> ('d, 't) Pipeline \<Rightarrow> bool \<times> ('d, 't) Pipeline" where
  "filter_tick P tick s =
     (case whole_call pop_from_buffer2 None s of
        (None, s1) \<Rightarrow> (False, s1)
      | (Some item, s1) \<Rightarrow>
          (case filter_reduce P (clock_filter P tick) item s1 of
             (item', s') \<Rightarrow>
               (True, s'\<lparr>pipeline_stats := bump_barrier (pipeline_stats s')\<rparr>)))"

text \<open>The filter stage over the items it consumes, each with the clock reading of
  its tick.\<close>

fun filter_reduce_all ::
  "('d, 't) platform \<Rightarrow> ('t \<times> ('d, 't) DataItem) list \<Rightarrow> ('d, 't) Pipeline \<Rightarrow> ('d, 't) Pipeline" where
  "filter_reduce_all P [] s = s"
| "filter_reduce_all P ((now, item) # rest) s =
     filter_reduce_all P rest (snd (filter_reduce P now item s))"

subsection \<open>The run\<close>

text \<open>
  The three threads meet at \<^verbatim>\<open>pthread_barrier_wait\<close> at the end of every tick, so
  no stage starts tick k + 1 before all have finished tick k. Within a tick the
  processor needs the generator's item and the filter the processor's: the tick is
  the three bodies in that order. All three loops have the bound \<open>DEFAULT_TICKS\<close>
  (\<^verbatim>\<open>int ticks = DEFAULT_TICKS\<close> in the generator, the constant itself in the other
  two), which is the number of ticks \<open>n\<close> that \<open>run_ticks\<close> is started with. A stage
  that leaves its loop by \<^verbatim>\<open>break\<close> does not come to the barrier; if the others do,
  they wait there for ever and \<^verbatim>\<open>pthread_join\<close> does not return: \<open>None\<close>.
\<close>

fun run_ticks ::
  "('d, 't) platform \<Rightarrow> nat \<Rightarrow> nat \<Rightarrow> ('d, 't) Pipeline \<Rightarrow> ('d, 't) Pipeline option" where
  "run_ticks P 0 tick s = Some s"
| "run_ticks P (Suc n) tick s =
     (case generator_tick P tick s of (g, s1) \<Rightarrow>
      case processor_tick P s1 of (p, s2) \<Rightarrow>
      case filter_tick P tick s2 of (f, s3) \<Rightarrow>
        if g \<and> p \<and> f then run_ticks P n (Suc tick) s3
        else if \<not> g \<and> \<not> p \<and> \<not> f then Some s3
        else None)"

text \<open>The state when \<^verbatim>\<open>main\<close> starts: the static queues are empty.\<close>

definition program_start :: "('d, 't) platform \<Rightarrow> ('d, 't) Pipeline" where
  "program_start P =
     \<lparr>stage1_to_stage2 = [], stage2_to_stage3 = [], pipeline_shutdown = False,
      pipeline_stats =
        \<lparr>items_generated = 0, items_processed = 0, items_filtered = 0, barrier_waits = 0,
         total_latency_ms = d_zero P\<rparr>,
      filtered_count = 0, accumulated_result = d_zero P\<rparr>"

text \<open>\<^verbatim>\<open>run_pipeline_benchmark(int num_ticks)\<close>: it prints \<^verbatim>\<open>num_ticks\<close>, resets the
  shutdown flag and the statistics, starts the three stage threads and joins them.
  The stage functions get their stage number as argument and nothing else. The
  filter thread starts with its two locals at zero.\<close>

definition run_pipeline_benchmark ::
  "('d, 't) platform \<Rightarrow> int \<Rightarrow> ('d, 't) Pipeline \<Rightarrow> ('d, 't) Pipeline option" where
  "run_pipeline_benchmark P num_ticks s =
     run_ticks P DEFAULT_TICKS 0
       (s\<lparr>pipeline_shutdown := False,
          pipeline_stats :=
            \<lparr>items_generated = 0, items_processed = 0, items_filtered = 0, barrier_waits = 0,
             total_latency_ms = d_zero P\<rparr>,
          filtered_count := 0, accumulated_result := d_zero P\<rparr>)"

text \<open>Between two ticks of a run both queues are empty and nobody has asked for
  shutdown.\<close>

definition clean :: "('d, 't) Pipeline \<Rightarrow> bool" where
  "clean s \<longleftrightarrow> stage1_to_stage2 s = [] \<and> stage2_to_stage3 s = [] \<and> \<not> pipeline_shutdown s"

text \<open>A platform to run the stage functions on: real numbers for \<^verbatim>\<open>double\<close>,
  milliseconds as integers for the clock, and simple stand-ins for the library.\<close>

definition demo_platform :: "(real, int) platform" where
  "demo_platform =
     \<lparr>d_zero = 0, d_tenth = 1 / 10, d_hundred = 100,
      d_less = (\<lambda>a b. a < b), d_add = (\<lambda>a b. a + b), d_fabs = (\<lambda>a. \<bar>a\<bar>),
      base_times_log = (\<lambda>raw. real_of_int raw / 4),
      sin_times_cos = (\<lambda>raw i. - 1),
      busy_total = (\<lambda>raw. 1 / 2),
      elapsed_ms = (\<lambda>now ts. real_of_int (now - ts)),
      rng_draw = (\<lambda>k. 3 * int k + 6),
      clock_generate = (\<lambda>k. 10 * int k),
      clock_filter = (\<lambda>k. 10 * int k + 4)\<rparr>"

definition demo_item :: "int \<Rightarrow> int \<Rightarrow> real \<Rightarrow> (real, int) DataItem" where
  "demo_item i raw pv =
     \<lparr>item_id = i, raw_value = raw, processed_value = pv, is_valid = False, timestamp = 0\<rparr>"

section \<open>Properties of the circular buffer\<close>

lemma unat_inc_small: "unat (c::64 word) \<le> 1024 \<Longrightarrow> unat (c + 1) = unat c + 1"
  by (simp add: unat_word_ariths)

lemma unat_dec_pos: "(c::64 word) \<noteq> 0 \<Longrightarrow> unat (c - 1) = unat c - 1"
  by (simp add: unat_minus_one)

lemma unat_next_index:
  "unat (h::64 word) < 1024 \<Longrightarrow> unat ((h + 1) mod 1024) = (unat h + 1) mod 1024"
  by (simp add: unat_mod unat_word_ariths)

lemma word_neq_1024: "(c::64 word) \<noteq> 1024 \<longleftrightarrow> unat c \<noteq> 1024"
  by (simp add: word_unat_eq_iff)

lemma word_neq_0: "(c::64 word) \<noteq> 0 \<longleftrightarrow> unat c \<noteq> 0"
  by (simp add: unat_eq_0)

lemma ring_inv_init: "ring_inv (ring_init buf)"
  by (simp add: ring_inv_def ring_init_def)

lemma next_index_arith:
  "h = (t + c) mod 1024 \<Longrightarrow> (h + 1) mod 1024 = (t + (c + 1)) mod (1024::nat)"
  by (simp add: mod_simps)

lemma next_tail_arith:
  "0 < c \<Longrightarrow> h = (t + c) mod 1024 \<Longrightarrow> h = ((t + 1) mod 1024 + (c - 1)) mod (1024::nat)"
  by (cases c) (simp_all add: mod_simps)

lemma ring_push_inv: "ring_inv r \<Longrightarrow> ring_inv (snd (ring_push r v))"
proof -
  assume inv: "ring_inv r"
  show ?thesis
  proof (cases "fst (ring_push r v) = Returned True")
    case False
    then show ?thesis using inv
      by (auto simp: ring_inv_def ring_push_def split: if_splits)
  next
    case True
    then have c: "unat (count r) \<noteq> 1024"
      by (auto simp: ring_push_def QUEUE_SIZE_def word_neq_1024 split: if_splits)
    from True have eq: "snd (ring_push r v) =
        r\<lparr>buffer := (buffer r)(head r := v), head := (head r + 1) mod 1024,
          count := count r + 1, total_produced := total_produced r + 1\<rparr>"
      by (auto simp: ring_push_def QUEUE_SIZE_def split: if_splits)
    from inv have h: "unat (head r) < 1024" and t: "unat (tail r) < 1024"
      and cl: "unat (count r) \<le> 1024"
      and hd: "unat (head r) = (unat (tail r) + unat (count r)) mod 1024"
      by (simp_all add: ring_inv_def)
    have c1: "unat (count r + 1) = unat (count r) + 1"
      using cl by (rule unat_inc_small)
    have h1: "unat ((head r + 1) mod 1024) = (unat (head r) + 1) mod 1024"
      using h by (rule unat_next_index)
    have "(unat (head r) + 1) mod 1024 = (unat (tail r) + (unat (count r) + 1)) mod 1024"
      using hd by (rule next_index_arith)
    then show ?thesis
      using c cl t by (simp add: eq ring_inv_def c1 h1)
  qed
qed

lemma ring_pop_inv: "ring_inv r \<Longrightarrow> ring_inv (snd (ring_pop r))"
proof -
  assume inv: "ring_inv r"
  show ?thesis
  proof (cases "count r = 0")
    case True
    then show ?thesis using inv
      by (auto simp: ring_inv_def ring_pop_def)
  next
    case False
    then have eq: "snd (ring_pop r) =
        r\<lparr>tail := (tail r + 1) mod 1024, count := count r - 1,
          total_consumed := total_consumed r + 1\<rparr>"
      by (simp add: ring_pop_def QUEUE_SIZE_def)
    from inv have h: "unat (head r) < 1024" and t: "unat (tail r) < 1024"
      and cl: "unat (count r) \<le> 1024"
      and hd: "unat (head r) = (unat (tail r) + unat (count r)) mod 1024"
      by (simp_all add: ring_inv_def)
    from False have pos: "0 < unat (count r)"
      by (simp add: word_neq_0)
    have c1: "unat (count r - 1) = unat (count r) - 1"
      using False by (rule unat_dec_pos)
    have t1: "unat ((tail r + 1) mod 1024) = (unat (tail r) + 1) mod 1024"
      using t by (rule unat_next_index)
    have "unat (head r) = ((unat (tail r) + 1) mod 1024 + (unat (count r) - 1)) mod 1024"
      using pos hd by (rule next_tail_arith)
    then show ?thesis
      using h cl by (simp add: eq ring_inv_def c1 t1)
  qed
qed

lemma ring_step_inv:
  assumes "ring_inv r"
  shows "ring_inv (ring_step r x)"
proof (cases x)
  case (Push v)
  then show ?thesis using assms by (simp add: ring_push_inv)
next
  case Pop
  then show ?thesis using assms by (simp add: ring_pop_inv)
next
  case Shutdown
  then show ?thesis using assms by (simp add: ring_shutdown_def ring_inv_def)
next
  case ForceStop
  then show ?thesis using assms by (simp add: ring_force_stop_def ring_inv_def)
qed

lemma ring_exec_inv: "ring_inv r \<Longrightarrow> ring_inv (ring_exec r xs)"
  by (induction xs arbitrary: r) (simp_all add: ring_step_inv)


lemma index_window_distinct:
  "i < c \<Longrightarrow> c < 1024 \<Longrightarrow> (t + i) mod 1024 \<noteq> (t + c) mod (1024::nat)"
proof
  assume a: "i < c" "c < 1024" and e: "(t + i) mod 1024 = (t + c) mod (1024::nat)"
  from e have "(t + c - (t + i)) mod 1024 = 0"
    using a by (metis add_le_cancel_left less_imp_le mod_eq_dvd_iff_nat mod_0_imp_dvd dvd_eq_mod_eq_0)
  then have "(c - i) mod 1024 = 0" by simp
  with a show False by simp
qed

lemma word_of_nat_index_inj:
  "a < 1024 \<Longrightarrow> b < 1024 \<Longrightarrow> (word_of_nat a :: 64 word) = word_of_nat b \<longleftrightarrow> a = b"
  by (simp add: word_of_nat_eq_iff take_bit_nat_eq_self)

lemma ring_push_contents:
  assumes inv: "ring_inv r" and ok: "fst (ring_push r v) = Returned True"
  shows "ring_contents (snd (ring_push r v)) = ring_contents r @ [v]"
proof -
  from ok have c: "unat (count r) \<noteq> 1024"
    by (auto simp: ring_push_def QUEUE_SIZE_def word_neq_1024 split: if_splits)
  from ok have eq: "snd (ring_push r v) =
      r\<lparr>buffer := (buffer r)(head r := v), head := (head r + 1) mod 1024,
        count := count r + 1, total_produced := total_produced r + 1\<rparr>"
    by (auto simp: ring_push_def QUEUE_SIZE_def split: if_splits)
  from inv have cl: "unat (count r) \<le> 1024"
    and hd: "unat (head r) = (unat (tail r) + unat (count r)) mod 1024"
    by (simp_all add: ring_inv_def)
  have c1: "unat (count r + 1) = Suc (unat (count r))"
    using cl by (simp add: unat_inc_small)
  have hw: "head r = word_of_nat ((unat (tail r) + unat (count r)) mod 1024)"
    using hd [symmetric] by simp
  have old: "((buffer r)(head r := v)) (word_of_nat ((unat (tail r) + i) mod 1024))
             = buffer r (word_of_nat ((unat (tail r) + i) mod 1024))"
    if "i < unat (count r)" for i
  proof -
    have "(unat (tail r) + i) mod 1024 \<noteq> (unat (tail r) + unat (count r)) mod 1024"
      using that c cl by (intro index_window_distinct) simp_all
    then have "(word_of_nat ((unat (tail r) + i) mod 1024) :: 64 word) \<noteq> head r"
      by (simp add: hw word_of_nat_index_inj)
    then show ?thesis by simp
  qed
  have new: "((buffer r)(head r := v)) (word_of_nat ((unat (tail r) + unat (count r)) mod 1024)) = v"
    using hw by simp
  show ?thesis
    by (simp add: ring_contents_def eq c1 old new del: fun_upd_apply)
qed

lemma ring_push_contents_same:
  "fst (ring_push r v) \<noteq> Returned True \<Longrightarrow> ring_contents (snd (ring_push r v)) = ring_contents r"
  by (auto simp: ring_push_def ring_contents_def split: if_splits)

lemma ring_pop_contents:
  assumes inv: "ring_inv r" and ne: "count r \<noteq> 0"
  shows "ring_contents r = buffer r (tail r) # ring_contents (snd (ring_pop r))"
proof -
  from ne have eq: "snd (ring_pop r) =
      r\<lparr>tail := (tail r + 1) mod 1024, count := count r - 1,
        total_consumed := total_consumed r + 1\<rparr>"
    by (simp add: ring_pop_def QUEUE_SIZE_def)
  from inv have t: "unat (tail r) < 1024"
    by (simp add: ring_inv_def)
  from ne obtain n where n: "unat (count r) = Suc n"
    by (metis word_neq_0 not0_implies_Suc)
  have c1: "unat (count r - 1) = n"
    using ne n by (simp add: unat_dec_pos)
  have t1: "unat ((tail r + 1) mod 1024) = (unat (tail r) + 1) mod 1024"
    using t by (rule unat_next_index)
  have first: "(word_of_nat (unat (tail r) mod 1024) :: 64 word) = tail r"
    using t by simp
  have "[0..<Suc n] = 0 # map Suc [0..<n]"
    by (simp add: upt_conv_Cons map_Suc_upt del: upt_Suc)
  then show ?thesis
    by (simp add: ring_contents_def eq n c1 t1 first comp_def mod_simps del: upt_Suc)
qed


lemma ring_pop_fst:
  "fst (ring_pop r) =
     (if count r \<noteq> 0 then Returned (Some (buffer r (tail r)))
      else if stop_requested r \<or> force_stop r then Returned None else Waiting)"
  by (simp add: ring_pop_def)

lemma ring_pop_contents_same:
  "count r = 0 \<Longrightarrow> ring_contents (snd (ring_pop r)) = ring_contents r"
  by (simp add: ring_pop_def ring_contents_def)

lemma ring_fifo_from:
  assumes "ring_inv r"
  shows "ring_contents r @ ring_pushed r ops = ring_popped r ops @ ring_contents (ring_exec r ops)"
  using assms
proof (induction ops arbitrary: r)
  case Nil
  then show ?case by simp
next
  case (Cons x xs)
  have inv': "ring_inv (ring_step r x)"
    using Cons.prems by (rule ring_step_inv)
  note IH = Cons.IH [OF inv']
  show ?case
  proof (cases x)
    case (Push v)
    show ?thesis
    proof (cases "fst (ring_push r v) = Returned True")
      case True
      then have "ring_contents (ring_step r x) = ring_contents r @ [v]"
        using Cons.prems Push by (simp add: ring_push_contents)
      then show ?thesis using IH True Push by simp
    next
      case False
      then have "ring_contents (ring_step r x) = ring_contents r"
        using Push by (simp add: ring_push_contents_same)
      then show ?thesis using IH False Push by simp
    qed
  next
    case Pop
    show ?thesis
    proof (cases "count r = 0")
      case True
      then have "ring_contents (ring_step r x) = ring_contents r"
        using Pop by (simp add: ring_pop_contents_same)
      then show ?thesis using IH True Pop by (simp add: ring_pop_fst)
    next
      case False
      then have "ring_contents r = buffer r (tail r) # ring_contents (ring_step r x)"
        using Cons.prems Pop by (simp add: ring_pop_contents)
      then show ?thesis using IH False Pop by (simp add: ring_pop_fst)
    qed
  next
    case Shutdown
    have "ring_contents (ring_step r x) = ring_contents r"
      using Shutdown by (simp add: ring_shutdown_def ring_contents_def)
    then show ?thesis using IH Shutdown by simp
  next
    case ForceStop
    have "ring_contents (ring_step r x) = ring_contents r"
      using ForceStop by (simp add: ring_force_stop_def ring_contents_def)
    then show ?thesis using IH ForceStop by simp
  qed
qed

lemma uint_le_of_unat: "unat (c::64 word) \<le> 1024 \<Longrightarrow> uint c \<le> 1024"
  by (metis of_nat_le_iff of_nat_numeral uint_nat)

lemma uint_inc_small: "uint (c::64 word) \<le> 1024 \<Longrightarrow> uint (c + 1) = uint c + 1"
  by (simp add: uint_word_ariths take_bit_eq_mod)

lemma uint_dec_pos: "(c::64 word) \<noteq> 0 \<Longrightarrow> uint (c - 1) = uint c - 1"
  using unat_minus_one [of c]
  by (metis uint_nat of_nat_diff of_nat_1 unat_eq_0 Suc_leI neq0_conv One_nat_def)

lemma ring_step_accounted:
  assumes "ring_inv r" "ring_accounted r"
  shows "ring_accounted (ring_step r x)"
proof (cases x)
  case (Push v)
  from assms(1) have "uint (count r) \<le> 1024" by (simp add: ring_inv_def uint_le_of_unat)
  then have "uint (count r + 1) = uint (count r) + 1" by (rule uint_inc_small)
  then show ?thesis using assms(2) Push
    by (simp add: ring_accounted_def ring_push_def)
next
  case Pop
  show ?thesis
  proof (cases "count r = 0")
    case True
    then show ?thesis using assms(2) Pop by (simp add: ring_accounted_def ring_pop_def)
  next
    case False
    then have "uint (count r - 1) = uint (count r) - 1"
      by (rule uint_dec_pos)
    then show ?thesis using assms(2) Pop False by (simp add: ring_accounted_def ring_pop_def)
  qed
next
  case Shutdown
  then show ?thesis using assms(2) by (simp add: ring_accounted_def ring_shutdown_def)
next
  case ForceStop
  then show ?thesis using assms(2) by (simp add: ring_accounted_def ring_force_stop_def)
qed

lemma ring_exec_accounted:
  "ring_inv r \<Longrightarrow> ring_accounted r \<Longrightarrow> ring_accounted (ring_exec r xs)"
  by (induction xs arbitrary: r) (simp_all add: ring_step_inv ring_step_accounted)

lemma ring_step_totals:
  "total_produced r \<le> total_produced (ring_step r x) \<and>
   total_produced (ring_step r x) \<le> total_produced r + 1 \<and>
   total_consumed r \<le> total_consumed (ring_step r x) \<and>
   total_consumed (ring_step r x) \<le> total_consumed r + 1"
  by (cases x) (simp_all add: ring_push_def ring_pop_def ring_shutdown_def ring_force_stop_def)

lemma ring_totals_bounded:
  "total_produced (ring_exec r xs) \<le> total_produced r + int (length xs) \<and>
   total_consumed (ring_exec r xs) \<le> total_consumed r + int (length xs)"
proof (induction xs arbitrary: r)
  case Nil
  show ?case by simp
next
  case (Cons x xs)
  show ?case using Cons.IH [of "ring_step r x"] ring_step_totals [of r x] by simp
qed

section \<open>Properties of the pipeline buffers\<close>

lemma buffer_push_length:
  "length q \<le> cap \<Longrightarrow> length (snd (buffer_push cap e x sd q)) \<le> cap"
  by (simp add: buffer_push_def)

lemma buffer_pop_length:
  "length (snd (buffer_pop e sd q)) \<le> length q"
  by (cases q) (simp_all add: buffer_pop_def)

lemma buffer_step_length:
  "length (fst st) \<le> cap \<Longrightarrow> length (fst (buffer_step cap st x)) \<le> cap"
proof (cases st)
  case (Pair q sd)
  assume "length (fst st) \<le> cap"
  then have l: "length q \<le> cap" using Pair by simp
  show ?thesis
  proof (cases x)
    case (Push_attempt e v)
    then show ?thesis using Pair l by (simp add: buffer_push_length)
  next
    case (Pop_attempt e)
    then show ?thesis using Pair l buffer_pop_length [of e sd q] by simp
  next
    case Request_shutdown
    then show ?thesis using Pair l by simp
  qed
qed

lemma buffer_exec_length:
  "length (fst st) \<le> cap \<Longrightarrow> length (fst (buffer_exec cap st xs)) \<le> cap"
  by (induction xs arbitrary: st) (simp_all add: buffer_step_length)

lemma buffer_pop_fst:
  "fst (buffer_pop e sd q) =
     (if e then Returned None
      else case q of [] \<Rightarrow> (if sd then Returned None else Waiting) | x # rest \<Rightarrow> Returned (Some x))"
  by (cases q) (simp_all add: buffer_pop_def)

lemma buffer_pop_snd:
  "snd (buffer_pop e sd q) = (if e then q else case q of [] \<Rightarrow> [] | x # rest \<Rightarrow> rest)"
  by (cases q) (simp_all add: buffer_pop_def)

lemma buffer_push_snd:
  "snd (buffer_push cap e x sd q) =
     (if fst (buffer_push cap e x sd q) = Returned True then q @ [x] else q)"
  by (simp add: buffer_push_def)

lemma buffer_fifo_from:
  "fst st @ buffer_pushed cap st xs = buffer_popped cap st xs @ fst (buffer_exec cap st xs)"
proof (induction xs arbitrary: st)
  case Nil
  show ?case by simp
next
  case (Cons x xs)
  obtain q sd where st: "st = (q, sd)" by (cases st)
  note IH = Cons.IH [of "buffer_step cap st x"]
  show ?case
  proof (cases x)
    case (Push_attempt e v)
    then show ?thesis using IH st
      by (cases "fst (buffer_push cap e v sd q) = Returned True") (simp_all add: buffer_push_snd)
  next
    case (Pop_attempt e)
    then show ?thesis using IH st
      by (cases q; cases e) (simp_all add: buffer_pop_fst buffer_pop_snd)
  next
    case Request_shutdown
    then show ?thesis using IH st by simp
  qed
qed

lemma buffer_step_shutdown: "snd st \<Longrightarrow> snd (buffer_step cap st x)"
  by (cases st; cases x) simp_all

lemma buffer_pushed_after_shutdown: "snd st \<Longrightarrow> buffer_pushed cap st xs = []"
proof (induction xs arbitrary: st)
  case Nil
  show ?case by simp
next
  case (Cons x xs)
  have "snd (buffer_step cap st x)" using Cons.prems by (rule buffer_step_shutdown)
  then have "buffer_pushed cap (buffer_step cap st x) xs = []" by (rule Cons.IH)
  then show ?case using Cons.prems by (cases x) (simp_all add: buffer_push_def)
qed

lemma push_alone_eq:
  "push_alone cap x sd q = (if length q < cap \<and> \<not> sd then (True, q @ [x]) else (False, q))"
  by (simp add: push_alone_def whole_call_def buffer_push_def)

lemma call_push_to_buffer1:
  "whole_call (\<lambda>expired. push_to_buffer1 expired item) False s =
     (if length (stage1_to_stage2 s) < BUFFER_SIZE \<and> \<not> pipeline_shutdown s
      then (True, s\<lparr>stage1_to_stage2 := stage1_to_stage2 s @ [item]\<rparr>) else (False, s))"
  by (simp add: whole_call_def push_to_buffer1_def buffer_push_def)

lemma call_push_to_buffer2:
  "whole_call (\<lambda>expired. push_to_buffer2 expired item) False s =
     (if length (stage2_to_stage3 s) < BUFFER_SIZE \<and> \<not> pipeline_shutdown s
      then (True, s\<lparr>stage2_to_stage3 := stage2_to_stage3 s @ [item]\<rparr>) else (False, s))"
  by (simp add: whole_call_def push_to_buffer2_def buffer_push_def)

lemma call_pop_from_buffer1:
  "whole_call pop_from_buffer1 None s =
     (case stage1_to_stage2 s of [] \<Rightarrow> (None, s)
      | x # rest \<Rightarrow> (Some x, s\<lparr>stage1_to_stage2 := rest\<rparr>))"
  by (cases "stage1_to_stage2 s") (simp_all add: whole_call_def pop_from_buffer1_def buffer_pop_def)

lemma call_pop_from_buffer2:
  "whole_call pop_from_buffer2 None s =
     (case stage2_to_stage3 s of [] \<Rightarrow> (None, s)
      | x # rest \<Rightarrow> (Some x, s\<lparr>stage2_to_stage3 := rest\<rparr>))"
  by (cases "stage2_to_stage3 s") (simp_all add: whole_call_def pop_from_buffer2_def buffer_pop_def)

lemma produce_alone_fits:
  "length q + length xs \<le> cap \<Longrightarrow>
   produce_alone cap False q xs = (replicate (length xs) True, q @ xs)"
  by (induction xs arbitrary: q) (simp_all add: push_alone_eq)

lemma produce_alone_full:
  "cap \<le> length q \<Longrightarrow> produce_alone cap False q (x # xs) = ([False], q)"
  by (simp add: push_alone_eq)

lemma produce_alone_append:
  "length q + length xs \<le> cap \<Longrightarrow>
   produce_alone cap False q (xs @ ys) =
     (case produce_alone cap False (q @ xs) ys of (rs, q') \<Rightarrow> (replicate (length xs) True @ rs, q'))"
  by (induction xs arbitrary: q) (simp_all add: push_alone_eq split: prod.splits)

lemma produce_alone_overflow:
  assumes "length q \<le> cap" "cap - length q < length xs"
  shows "produce_alone cap False q xs =
           (replicate (cap - length q) True @ [False], q @ take (cap - length q) xs)"
proof -
  let ?k = "cap - length q"
  have xs: "xs = take ?k xs @ drop ?k xs" by simp
  from assms(2) obtain y ys where d: "drop ?k xs = y # ys"
    by (cases "drop ?k xs") simp_all
  have len: "length (take ?k xs) = ?k" using assms(2) by simp
  have "produce_alone cap False q (take ?k xs @ (y # ys)) =
        (case produce_alone cap False (q @ take ?k xs) (y # ys) of
           (rs, q') \<Rightarrow> (replicate (length (take ?k xs)) True @ rs, q'))"
    using assms(1) len by (intro produce_alone_append) simp
  also have "produce_alone cap False (q @ take ?k xs) (y # ys) = ([False], q @ take ?k xs)"
    using assms(1) len by (intro produce_alone_full) simp
  finally show ?thesis using xs d len by simp
qed

section \<open>Properties of the stages and of the run\<close>

lemma smod_zero_iff_dvd: "(k::int) smod l = 0 \<longleftrightarrow> k mod l = 0"
proof (cases "l = 0")
  case True
  then show ?thesis by (simp add: signed_modulo_int_def sgn_if)
next
  case False
  have "k smod l = 0 \<longleftrightarrow> \<bar>k\<bar> mod \<bar>l\<bar> = 0"
    by (auto simp: signed_modulo_int_def sgn_if)
  also have "\<dots> \<longleftrightarrow> \<bar>l\<bar> dvd \<bar>k\<bar>" by (simp add: dvd_eq_mod_eq_0)
  also have "\<dots> \<longleftrightarrow> l dvd k" by simp
  also have "\<dots> \<longleftrightarrow> k mod l = 0" by (simp add: dvd_eq_mod_eq_0)
  finally show ?thesis .
qed

lemma passes_filter_iff:
  "passes_filter P item \<longleftrightarrow>
     d_less P (d_tenth P) (processed_value item) \<and>
     d_less P (processed_value item) (d_hundred P) \<and>
     item_id item mod 13 \<noteq> 0 \<and>
     (raw_value item mod 3 = 0 \<or> raw_value item mod 7 = 0)"
  by (auto simp: passes_filter_def smod_zero_iff_dvd)

lemma filter_reduce_item:
  "fst (filter_reduce P now item s) = item\<lparr>is_valid := passes_filter P item\<rparr>"
  by (simp add: filter_reduce_def)

lemma filter_reduce_state:
  "snd (filter_reduce P now item s) =
     (if passes_filter P item
      then s\<lparr>filtered_count := filtered_count s + 1,
             accumulated_result := d_add P (accumulated_result s) (processed_value item),
             pipeline_stats :=
               bump_filtered (add_latency P (elapsed_ms P now (timestamp item)) (pipeline_stats s))\<rparr>
      else s)"
  by (simp add: filter_reduce_def)

lemma process_one_update:
  "process P item =
     item\<lparr>processed_value :=
       d_add P
         (d_fabs P (d_add P (base_times_log P (raw_value item))
            (sin_times_cos P (raw_value item) (item_id item))))
         (busy_total P (raw_value item))\<rparr>"
  by (simp add: process_def)

lemma generator_tick_clean:
  assumes "clean s"
  shows "generator_tick P k s =
    (True, s\<lparr>stage1_to_stage2 := [new_DataItem P (clock_generate P k) (int k) (rng_draw P k)],
             pipeline_stats := bump_barrier (bump_generated (pipeline_stats s))\<rparr>)"
  using assms by (simp add: generator_tick_def clean_def call_push_to_buffer1 BUFFER_SIZE_def)

lemma processor_tick_fed:
  assumes "stage1_to_stage2 s = [item]" "stage2_to_stage3 s = []" "\<not> pipeline_shutdown s"
  shows "processor_tick P s =
    (True, s\<lparr>stage1_to_stage2 := [], stage2_to_stage3 := [process P item],
             pipeline_stats := bump_barrier (bump_processed (pipeline_stats s))\<rparr>)"
  using assms
  by (simp add: processor_tick_def call_pop_from_buffer1 call_push_to_buffer2 BUFFER_SIZE_def)

lemma filter_tick_fed:
  assumes "stage2_to_stage3 s = [item]"
  shows "filter_tick P k s =
    (True, (snd (filter_reduce P (clock_filter P k) item (s\<lparr>stage2_to_stage3 := []\<rparr>)))
             \<lparr>pipeline_stats := bump_barrier (pipeline_stats
                (snd (filter_reduce P (clock_filter P k) item (s\<lparr>stage2_to_stage3 := []\<rparr>))))\<rparr>)"
  using assms by (simp add: filter_tick_def call_pop_from_buffer2 split: prod.splits)


lemma filter_reduce_keeps_queues:
  "stage1_to_stage2 (snd (filter_reduce P now item s)) = stage1_to_stage2 s \<and>
   stage2_to_stage3 (snd (filter_reduce P now item s)) = stage2_to_stage3 s \<and>
   pipeline_shutdown (snd (filter_reduce P now item s)) = pipeline_shutdown s"
  by (simp add: filter_reduce_state)

lemma filter_reduce_counts:
  "items_generated (pipeline_stats (snd (filter_reduce P now item s))) = items_generated (pipeline_stats s) \<and>
   items_processed (pipeline_stats (snd (filter_reduce P now item s))) = items_processed (pipeline_stats s) \<and>
   barrier_waits (pipeline_stats (snd (filter_reduce P now item s))) = barrier_waits (pipeline_stats s)"
  by (simp add: filter_reduce_state bump_filtered_def add_latency_def)

lemma lockstep_tick:
  assumes "clean s"
  shows "\<exists>s1 s2 s3.
     generator_tick P k s = (True, s1) \<and> processor_tick P s1 = (True, s2) \<and>
     filter_tick P k s2 = (True, s3) \<and> clean s3 \<and>
     items_generated (pipeline_stats s3) = items_generated (pipeline_stats s) + 1 \<and>
     items_processed (pipeline_stats s3) = items_processed (pipeline_stats s) + 1 \<and>
     barrier_waits (pipeline_stats s3) = barrier_waits (pipeline_stats s) + 3"
proof -
  let ?item = "new_DataItem P (clock_generate P k) (int k) (rng_draw P k)"
  let ?s1 = "s\<lparr>stage1_to_stage2 := [?item],
               pipeline_stats := bump_barrier (bump_generated (pipeline_stats s))\<rparr>"
  let ?s2 = "?s1\<lparr>stage1_to_stage2 := [], stage2_to_stage3 := [process P ?item],
               pipeline_stats := bump_barrier (bump_processed (pipeline_stats ?s1))\<rparr>"
  let ?f = "snd (filter_reduce P (clock_filter P k) (process P ?item) (?s2\<lparr>stage2_to_stage3 := []\<rparr>))"
  let ?s3 = "?f\<lparr>pipeline_stats := bump_barrier (pipeline_stats ?f)\<rparr>"
  have g: "generator_tick P k s = (True, ?s1)"
    using assms by (rule generator_tick_clean)
  have p: "processor_tick P ?s1 = (True, ?s2)"
    using assms by (intro processor_tick_fed) (simp_all add: clean_def)
  have f: "filter_tick P k ?s2 = (True, ?s3)"
    by (intro filter_tick_fed) simp
  have c: "clean ?s3"
    using assms by (simp add: clean_def filter_reduce_keeps_queues)
  have n: "items_generated (pipeline_stats ?s3) = items_generated (pipeline_stats s) + 1"
    "items_processed (pipeline_stats ?s3) = items_processed (pipeline_stats s) + 1"
    "barrier_waits (pipeline_stats ?s3) = barrier_waits (pipeline_stats s) + 3"
    by (simp_all add: filter_reduce_counts bump_barrier_def bump_generated_def bump_processed_def)
  from g p f c n show ?thesis by blast
qed

lemma run_ticks_clean:
  assumes "clean s"
  shows "\<exists>s'. run_ticks P n k s = Some s' \<and> clean s' \<and>
     items_generated (pipeline_stats s') = items_generated (pipeline_stats s) + int n \<and>
     items_processed (pipeline_stats s') = items_processed (pipeline_stats s) + int n \<and>
     barrier_waits (pipeline_stats s') = barrier_waits (pipeline_stats s) + 3 * int n"
  using assms
proof (induction n arbitrary: k s)
  case 0
  then show ?case by simp
next
  case (Suc n)
  from lockstep_tick [OF Suc.prems, of P k] obtain s1 s2 s3 where
    t: "generator_tick P k s = (True, s1)" "processor_tick P s1 = (True, s2)"
       "filter_tick P k s2 = (True, s3)" and c: "clean s3" and
    e: "items_generated (pipeline_stats s3) = items_generated (pipeline_stats s) + 1"
       "items_processed (pipeline_stats s3) = items_processed (pipeline_stats s) + 1"
       "barrier_waits (pipeline_stats s3) = barrier_waits (pipeline_stats s) + 3"
    by blast
  from Suc.IH [OF c, of "Suc k"] obtain s' where
    r: "run_ticks P n (Suc k) s3 = Some s'" "clean s'"
       "items_generated (pipeline_stats s') = items_generated (pipeline_stats s3) + int n"
       "items_processed (pipeline_stats s') = items_processed (pipeline_stats s3) + int n"
       "barrier_waits (pipeline_stats s') = barrier_waits (pipeline_stats s3) + 3 * int n"
    by blast
  have "run_ticks P (Suc n) k s = Some s'"
    using t r(1) by simp
  then show ?case using r e by simp
qed

lemma run_pipeline_benchmark_ticks:
  assumes "stage1_to_stage2 s = []" "stage2_to_stage3 s = []"
  shows "\<exists>s'. run_pipeline_benchmark P num_ticks s = Some s' \<and>
     items_generated (pipeline_stats s') = 1000 \<and>
     items_processed (pipeline_stats s') = 1000 \<and>
     barrier_waits (pipeline_stats s') = 3000"
proof -
  let ?s0 = "s\<lparr>pipeline_shutdown := False,
          pipeline_stats :=
            \<lparr>items_generated = 0, items_processed = 0, items_filtered = 0, barrier_waits = 0,
             total_latency_ms = d_zero P\<rparr>,
          filtered_count := 0, accumulated_result := d_zero P\<rparr>"
  have "clean ?s0" using assms by (simp add: clean_def)
  from run_ticks_clean [OF this, of P DEFAULT_TICKS 0]
  show ?thesis by (simp add: run_pipeline_benchmark_def DEFAULT_TICKS_def) blast
qed

section \<open>The claims\<close>

subsection \<open>Reachable rings\<close>

lemma ring_reach_inv: "ring_inv (ring_exec (ring_init buf) ops)"
  by (intro ring_exec_inv ring_inv_init)

lemma ring_reach_accounted: "ring_accounted (ring_exec (ring_init buf) ops)"
  by (intro ring_exec_accounted ring_inv_init) (simp add: ring_accounted_def ring_init_def)

subsection \<open>Claim C1: the filter\<close>

lemma filter_reduce_all_accumulated:
  "accumulated_result (filter_reduce_all P xs s) =
     foldl (d_add P) (accumulated_result s)
       (map (\<lambda>(now, item). processed_value item) (filter (\<lambda>(now, item). passes_filter P item) xs))"
  by (induction xs arbitrary: s) (simp_all add: filter_reduce_state split: prod.splits)

lemma filter_reduce_all_latency:
  "total_latency_ms (pipeline_stats (filter_reduce_all P xs s)) =
     foldl (d_add P) (total_latency_ms (pipeline_stats s))
       (map (\<lambda>(now, item). elapsed_ms P now (timestamp item))
          (filter (\<lambda>(now, item). passes_filter P item) xs))"
  by (induction xs arbitrary: s)
    (simp_all add: filter_reduce_state bump_filtered_def add_latency_def split: prod.splits)

lemma filter_tick_consumes:
  "filter_tick P k (s\<lparr>stage2_to_stage3 := item # rest\<rparr>) =
     (True, (snd (filter_reduce P (clock_filter P k) item (s\<lparr>stage2_to_stage3 := rest\<rparr>)))
        \<lparr>pipeline_stats := bump_barrier (pipeline_stats
            (snd (filter_reduce P (clock_filter P k) item (s\<lparr>stage2_to_stage3 := rest\<rparr>))))\<rparr>)"
  by (simp add: filter_tick_def call_pop_from_buffer2 split: prod.splits)

text \<open>
  Claim C1. In the filter/reduce stage an item passes exactly when
  \<open>0.1 < processed_value < 100.0\<close>, its id is not a multiple of 13 and its raw value
  is a multiple of 3 or of 7. The remainder tests are stated with \<open>mod\<close>; the
  program's truncating \<^verbatim>\<open>%\<close> agrees with it on being zero. A passing item adds its
  processed value to \<open>accumulated_result\<close> and its latency to \<open>total_latency_ms\<close>; any
  other item leaves both as they were. This holds for the step on one item, for the
  tick that pops the item from the queue, and for the totals over any sequence of
  consumed items, which are the sums over the passing ones in order.
\<close>

theorem C1_filter_reduce:
  "(passes_filter P item \<longleftrightarrow>
      d_less P (d_tenth P) (processed_value item) \<and>
      d_less P (processed_value item) (d_hundred P) \<and>
      item_id item mod 13 \<noteq> 0 \<and>
      (raw_value item mod 3 = 0 \<or> raw_value item mod 7 = 0)) \<and>
   accumulated_result (snd (filter_reduce P now item s)) =
     (if passes_filter P item then d_add P (accumulated_result s) (processed_value item)
      else accumulated_result s) \<and>
   total_latency_ms (pipeline_stats (snd (filter_reduce P now item s))) =
     (if passes_filter P item
      then d_add P (total_latency_ms (pipeline_stats s)) (elapsed_ms P now (timestamp item))
      else total_latency_ms (pipeline_stats s)) \<and>
   accumulated_result (snd (filter_tick P k (s\<lparr>stage2_to_stage3 := item # rest\<rparr>))) =
     (if passes_filter P item then d_add P (accumulated_result s) (processed_value item)
      else accumulated_result s) \<and>
   total_latency_ms (pipeline_stats (snd (filter_tick P k (s\<lparr>stage2_to_stage3 := item # rest\<rparr>)))) =
     (if passes_filter P item
      then d_add P (total_latency_ms (pipeline_stats s))
             (elapsed_ms P (clock_filter P k) (timestamp item))
      else total_latency_ms (pipeline_stats s)) \<and>
   accumulated_result (filter_reduce_all P xs s) =
     foldl (d_add P) (accumulated_result s)
       (map (\<lambda>(now, item). processed_value item)
          (filter (\<lambda>(now, item). passes_filter P item) xs)) \<and>
   total_latency_ms (pipeline_stats (filter_reduce_all P xs s)) =
     foldl (d_add P) (total_latency_ms (pipeline_stats s))
       (map (\<lambda>(now, item). elapsed_ms P now (timestamp item))
          (filter (\<lambda>(now, item). passes_filter P item) xs))"
proof -
  have a: "passes_filter P item \<longleftrightarrow>
      d_less P (d_tenth P) (processed_value item) \<and>
      d_less P (processed_value item) (d_hundred P) \<and>
      item_id item mod 13 \<noteq> 0 \<and>
      (raw_value item mod 3 = 0 \<or> raw_value item mod 7 = 0)"
    by (rule passes_filter_iff)
  have b: "accumulated_result (snd (filter_reduce P now' item s')) =
     (if passes_filter P item then d_add P (accumulated_result s') (processed_value item)
      else accumulated_result s')" for now' s'
    by (simp add: filter_reduce_state)
  have c: "total_latency_ms (pipeline_stats (snd (filter_reduce P now' item s'))) =
     (if passes_filter P item
      then d_add P (total_latency_ms (pipeline_stats s')) (elapsed_ms P now' (timestamp item))
      else total_latency_ms (pipeline_stats s'))" for now' s'
    by (simp add: filter_reduce_state bump_filtered_def add_latency_def)
  have d: "accumulated_result (snd (filter_tick P k (s\<lparr>stage2_to_stage3 := item # rest\<rparr>))) =
     (if passes_filter P item then d_add P (accumulated_result s) (processed_value item)
      else accumulated_result s)"
    by (simp add: filter_tick_consumes b)
  have e: "total_latency_ms (pipeline_stats (snd (filter_tick P k (s\<lparr>stage2_to_stage3 := item # rest\<rparr>)))) =
     (if passes_filter P item
      then d_add P (total_latency_ms (pipeline_stats s))
             (elapsed_ms P (clock_filter P k) (timestamp item))
      else total_latency_ms (pipeline_stats s))"
    by (simp add: filter_tick_consumes c bump_barrier_def)
  from a b [of now s] c [of now s] d e
    filter_reduce_all_accumulated [of P xs s] filter_reduce_all_latency [of P xs s]
  show ?thesis by blast
qed

text \<open>The statement above on concrete inputs.\<close>

theorem C1_filter_reduce_witness:
  "passes_filter demo_platform (demo_item 1 6 5) \<and>
   \<not> passes_filter demo_platform (demo_item 13 6 5) \<and>
   \<not> passes_filter demo_platform (demo_item 1 5 5) \<and>
   \<not> passes_filter demo_platform (demo_item 1 6 100) \<and>
   accumulated_result (snd (filter_reduce demo_platform 7 (demo_item 1 6 5) (program_start demo_platform))) = 5 \<and>
   total_latency_ms (pipeline_stats
     (snd (filter_reduce demo_platform 7 (demo_item 1 6 5) (program_start demo_platform)))) = 7 \<and>
   accumulated_result (snd (filter_reduce demo_platform 7 (demo_item 13 6 5) (program_start demo_platform))) = 0 \<and>
   total_latency_ms (pipeline_stats
     (snd (filter_reduce demo_platform 7 (demo_item 13 6 5) (program_start demo_platform)))) = 0 \<and>
   accumulated_result (filter_reduce_all demo_platform
     [(7, demo_item 1 6 5), (8, demo_item 13 6 5), (9, demo_item 2 7 3)] (program_start demo_platform)) = 8 \<and>
   total_latency_ms (pipeline_stats (filter_reduce_all demo_platform
     [(7, demo_item 1 6 5), (8, demo_item 13 6 5), (9, demo_item 2 7 3)] (program_start demo_platform))) = 16"
  using C1_filter_reduce [where P = demo_platform and item = "demo_item 1 6 5" and now = 7
      and s = "program_start demo_platform" and k = 0 and rest = "[]"
      and xs = "[(7, demo_item 1 6 5), (8, demo_item 13 6 5), (9, demo_item 2 7 3)]"]
    C1_filter_reduce [where P = demo_platform and item = "demo_item 13 6 5" and now = 7
      and s = "program_start demo_platform" and k = 0 and rest = "[]" and xs = "[]"]
    C1_filter_reduce [where P = demo_platform and item = "demo_item 1 5 5" and now = 7
      and s = "program_start demo_platform" and k = 0 and rest = "[]" and xs = "[]"]
    C1_filter_reduce [where P = demo_platform and item = "demo_item 1 6 100" and now = 7
      and s = "program_start demo_platform" and k = 0 and rest = "[]" and xs = "[]"]
  by (simp add: demo_platform_def demo_item_def program_start_def passes_filter_def
      signed_modulo_int_def)

subsection \<open>Claim C2: the tick count\<close>

lemma program_start_clean: "clean (program_start P)"
  by (simp add: clean_def program_start_def)

text \<open>
  Claim C2 says that the tick count given to the run bounds every stage's loop. The
  program does otherwise: \<^verbatim>\<open>run_pipeline_benchmark\<close> prints its argument and the
  stages loop \<open>DEFAULT_TICKS\<close> times. Called with 5, the run ends with 1000 items
  generated, 1000 processed and 3000 arrivals at the barrier, 1000 by each stage.
\<close>

theorem C2_tick_count_is_fixed:
  "\<exists>s'. run_pipeline_benchmark P 5 (program_start P) = Some s' \<and>
     items_generated (pipeline_stats s') = 1000 \<and>
     items_processed (pipeline_stats s') = 1000 \<and>
     barrier_waits (pipeline_stats s') = 3000"
  by (intro run_pipeline_benchmark_ticks) (simp_all add: program_start_def)

subsection \<open>Claim C3: the capacity bound\<close>

lemma ring_inv_count_le: "ring_inv r \<Longrightarrow> count r \<le> QUEUE_SIZE"
  by (simp add: ring_inv_def QUEUE_SIZE_def word_le_nat_alt)

lemma ring_push_full: "count r = QUEUE_SIZE \<Longrightarrow> ring_queue (snd (ring_push r v)) = ring_queue r"
  by (simp add: ring_push_def ring_queue_def)

lemma ring_pop_empty: "count r = 0 \<Longrightarrow> ring_queue (snd (ring_pop r)) = ring_queue r"
  by (simp add: ring_pop_def ring_queue_def)

lemma buffer_push_full: "cap \<le> length q \<Longrightarrow> snd (buffer_push cap e x sd q) = q"
  by (simp add: buffer_push_def)

lemma buffer_pop_empty: "snd (buffer_pop e sd []) = []"
  by (simp add: buffer_pop_def)

text \<open>
  Claim C3. From the empty ring, after any number \<open>n\<close> of the calls of any sequence,
  \<open>0 \<le> count \<le> QUEUE_SIZE\<close>; a push on a full ring and a pop on an empty one leave
  the queue as it is. The same for a buffer of the pipeline and its capacity.
\<close>

theorem C3_capacity_invariant:
  "0 \<le> count (ring_exec (ring_init buf) (take n ops)) \<and>
   count (ring_exec (ring_init buf) (take n ops)) \<le> QUEUE_SIZE \<and>
   (count rf = QUEUE_SIZE \<longrightarrow> ring_queue (snd (ring_push rf v)) = ring_queue rf) \<and>
   (count re = 0 \<longrightarrow> ring_queue (snd (ring_pop re)) = ring_queue re) \<and>
   length (fst (buffer_exec cap ([], False) (take n bops))) \<le> cap \<and>
   (cap \<le> length q \<longrightarrow> snd (buffer_push cap e x sd q) = q) \<and>
   snd (buffer_pop e sd []) = []"
proof -
  have "count (ring_exec (ring_init buf) (take n ops)) \<le> QUEUE_SIZE"
    by (intro ring_inv_count_le ring_reach_inv)
  moreover have "length (fst (buffer_exec cap ([], False) (take n bops))) \<le> cap"
    by (intro buffer_exec_length) simp
  ultimately show ?thesis
    by (simp add: ring_push_full ring_pop_empty buffer_push_full buffer_pop_empty)
qed

text \<open>The statement above on concrete inputs.\<close>

theorem C3_capacity_invariant_witness:
  "count (ring_exec (ring_init (\<lambda>_. 0)) (take 3 [Push 7, Pop, Pop, Push 8])) \<le> QUEUE_SIZE \<and>
   count ring_full = QUEUE_SIZE \<and>
   ring_queue (snd (ring_push ring_full 5)) = ring_queue ring_full \<and>
   count (ring_init (\<lambda>_. 0)) = 0 \<and>
   ring_queue (snd (ring_pop (ring_init (\<lambda>_. 0)))) = ring_queue (ring_init (\<lambda>_. 0)) \<and>
   length (fst (buffer_exec 2 ([], False)
     (take 3 [Push_attempt False (1::int), Push_attempt False 2, Push_attempt False 3,
              Pop_attempt False]))) \<le> 2 \<and>
   (2::nat) \<le> length [1::int, 2] \<and>
   snd (buffer_push 2 False (3::int) False [1, 2]) = [1, 2] \<and>
   snd (buffer_pop False False ([]::int list)) = []"
  using C3_capacity_invariant [where buf = "\<lambda>_. 0" and n = 3 and ops = "[Push 7, Pop, Pop, Push 8]"
      and rf = ring_full and v = 5 and re = "ring_init (\<lambda>_. 0)" and cap = 2
      and bops = "[Push_attempt False (1::int), Push_attempt False 2, Push_attempt False 3,
                   Pop_attempt False]"
      and q = "[1::int, 2]" and e = False and x = "3::int" and sd = False]
  by (simp add: ring_full_def ring_init_def QUEUE_SIZE_def)

subsection \<open>Claim C4: first in, first out\<close>

lemma ring_contents_empty: "count r = 0 \<Longrightarrow> ring_contents r = []"
  by (simp add: ring_contents_def)

text \<open>
  Claim C4. In any run from the empty ring, the values pushed with success are the
  values popped followed by what the ring still holds: nothing is lost, doubled or
  out of order, and once the ring is empty again the two sequences are equal. The
  same for a buffer of the pipeline.
\<close>

theorem C4_fifo:
  "ring_pushed (ring_init buf) ops =
     ring_popped (ring_init buf) ops @ ring_contents (ring_exec (ring_init buf) ops) \<and>
   (count (ring_exec (ring_init buf) ops) = 0 \<longrightarrow>
      ring_popped (ring_init buf) ops = ring_pushed (ring_init buf) ops) \<and>
   buffer_pushed cap ([], sd) bops =
     buffer_popped cap ([], sd) bops @ fst (buffer_exec cap ([], sd) bops)"
proof -
  have "ring_contents (ring_init buf) @ ring_pushed (ring_init buf) ops =
        ring_popped (ring_init buf) ops @ ring_contents (ring_exec (ring_init buf) ops)"
    by (intro ring_fifo_from ring_inv_init)
  moreover have "ring_contents (ring_init buf) = []"
    by (simp add: ring_contents_def ring_init_def)
  moreover have "fst ([], sd) @ buffer_pushed cap ([], sd) bops =
        buffer_popped cap ([], sd) bops @ fst (buffer_exec cap ([], sd) bops)"
    by (rule buffer_fifo_from)
  ultimately show ?thesis by (simp add: ring_contents_empty)
qed

text \<open>The statement above on concrete inputs.\<close>

theorem C4_fifo_witness:
  "ring_pushed (ring_init (\<lambda>_. 0)) [Push 1, Push 2, Pop, Push 3, Pop, Pop] = [1, 2, 3] \<and>
   ring_popped (ring_init (\<lambda>_. 0)) [Push 1, Push 2, Pop, Push 3, Pop, Pop] = [1, 2, 3] \<and>
   count (ring_exec (ring_init (\<lambda>_. 0)) [Push 1, Push 2, Pop, Push 3, Pop, Pop]) = 0 \<and>
   buffer_pushed 2 ([], False)
     [Push_attempt False (1::int), Push_attempt False 2, Push_attempt False 3, Pop_attempt False] = [1, 2] \<and>
   buffer_popped 2 ([], False)
     [Push_attempt False (1::int), Push_attempt False 2, Push_attempt False 3, Pop_attempt False] = [1]"
  using C4_fifo [where buf = "\<lambda>_. 0" and ops = "[Push 1, Push 2, Pop, Push 3, Pop, Pop]"
      and cap = 2 and sd = False
      and bops = "[Push_attempt False (1::int), Push_attempt False 2, Push_attempt False 3,
                   Pop_attempt False]"]
  by (simp add: ring_init_def ring_push_def ring_pop_def QUEUE_SIZE_def buffer_push_def buffer_pop_def)

subsection \<open>Claim C5: no push after shutdown\<close>

lemma ring_push_stopped:
  "stop_requested r \<or> force_stop r \<Longrightarrow> ring_push r v = (Returned False, r)"
  by (auto simp: ring_push_def)

lemma ring_step_stopped:
  "stop_requested r \<or> force_stop r \<Longrightarrow>
   stop_requested (ring_step r x) \<or> force_stop (ring_step r x)"
  by (cases x) (auto simp: ring_push_def ring_pop_def ring_shutdown_def ring_force_stop_def)

lemma ring_pushed_stopped:
  "stop_requested r \<or> force_stop r \<Longrightarrow> ring_pushed r xs = []"
proof (induction xs arbitrary: r)
  case Nil
  show ?case by simp
next
  case (Cons x xs)
  from Cons.prems have "stop_requested (ring_step r x) \<or> force_stop (ring_step r x)"
    by (rule ring_step_stopped)
  then have "ring_pushed (ring_step r x) xs = []" by (rule Cons.IH)
  then show ?case using Cons.prems by (cases x) (simp_all add: ring_push_stopped)
qed

lemma ring_shutdown_inv: "ring_inv r \<Longrightarrow> ring_inv (ring_shutdown r)"
  by (simp add: ring_inv_def ring_shutdown_def)

lemma ring_shutdown_contents: "ring_contents (ring_shutdown r) = ring_contents r"
  by (simp add: ring_contents_def ring_shutdown_def)

lemma push_to_buffer_after_shutdown:
  "push_to_buffer1 e item (request_pipeline_shutdown s) = (Returned False, request_pipeline_shutdown s) \<and>
   push_to_buffer2 e item (request_pipeline_shutdown s) = (Returned False, request_pipeline_shutdown s)"
  by (simp add: push_to_buffer1_def push_to_buffer2_def request_pipeline_shutdown_def buffer_push_def)

lemma buffer_exec_shutdown: "snd st \<Longrightarrow> snd (buffer_exec cap st xs)"
  by (induction xs arbitrary: st) (simp_all add: buffer_step_shutdown)

text \<open>
  Claim C5. Once the stop flag is set, a push returns \<^verbatim>\<open>false\<close> and changes nothing,
  the flag stays set, and whatever the threads do next no push succeeds: what is
  popped after shutdown, together with what remains, is exactly what the queue held
  when the flag was set. For the ring after \<open>ring_shutdown\<close>, and for the buffers
  of the pipeline with the flag set by \<open>request_pipeline_shutdown\<close>.
\<close>

theorem C5_no_push_after_shutdown:
  "ring_push (ring_shutdown r) v = (Returned False, ring_shutdown r) \<and>
   stop_requested (ring_exec (ring_shutdown r) ops) \<and>
   ring_pushed (ring_shutdown (ring_exec (ring_init buf) before)) ops = [] \<and>
   ring_contents (ring_exec (ring_init buf) before) =
     ring_popped (ring_shutdown (ring_exec (ring_init buf) before)) ops @
     ring_contents (ring_exec (ring_shutdown (ring_exec (ring_init buf) before)) ops) \<and>
   buffer_push cap e x True q = (Returned False, q) \<and>
   snd (buffer_exec cap (q, True) bops) \<and>
   buffer_pushed cap (q, True) bops = [] \<and>
   q = buffer_popped cap (q, True) bops @ fst (buffer_exec cap (q, True) bops) \<and>
   push_to_buffer1 e item (request_pipeline_shutdown s) =
     (Returned False, request_pipeline_shutdown s) \<and>
   push_to_buffer2 e item (request_pipeline_shutdown s) =
     (Returned False, request_pipeline_shutdown s)"
proof -
  let ?r = "ring_shutdown (ring_exec (ring_init buf) before)"
  have st: "stop_requested (ring_shutdown r')" for r'
    by (simp add: ring_shutdown_def)
  have a: "ring_push (ring_shutdown r) v = (Returned False, ring_shutdown r)"
    by (intro ring_push_stopped) (simp add: st)
  have "stop_requested (ring_exec r' xs)" if "stop_requested r'" for r' xs
    using that
  proof (induction xs arbitrary: r')
    case Nil
    then show ?case by simp
  next
    case (Cons y ys)
    have "stop_requested (ring_step r' y)"
      using Cons.prems
      by (cases y) (simp_all add: ring_push_def ring_pop_def ring_shutdown_def ring_force_stop_def)
    then show ?case using Cons.IH by simp
  qed
  then have b: "stop_requested (ring_exec (ring_shutdown r) ops)"
    by (simp add: st)
  have c: "ring_pushed ?r ops = []"
    by (intro ring_pushed_stopped) (simp add: st)
  have "ring_inv ?r"
    by (intro ring_shutdown_inv ring_reach_inv)
  then have "ring_contents ?r @ ring_pushed ?r ops = ring_popped ?r ops @ ring_contents (ring_exec ?r ops)"
    by (rule ring_fifo_from)
  then have d: "ring_contents (ring_exec (ring_init buf) before) =
     ring_popped ?r ops @ ring_contents (ring_exec ?r ops)"
    by (simp add: c ring_shutdown_contents)
  have e: "buffer_push cap e x True q = (Returned False, q)"
    by (simp add: buffer_push_def)
  have f: "snd (buffer_exec cap (q, True) bops)"
    by (intro buffer_exec_shutdown) simp
  have g: "buffer_pushed cap (q, True) bops = []"
    by (intro buffer_pushed_after_shutdown) simp
  have "fst (q, True) @ buffer_pushed cap (q, True) bops =
        buffer_popped cap (q, True) bops @ fst (buffer_exec cap (q, True) bops)"
    by (rule buffer_fifo_from)
  then have h: "q = buffer_popped cap (q, True) bops @ fst (buffer_exec cap (q, True) bops)"
    by (simp add: g)
  from a b c d e f g h push_to_buffer_after_shutdown [of e item s] show ?thesis
    by blast
qed

text \<open>The statement above on concrete inputs.\<close>

theorem C5_no_push_after_shutdown_witness:
  "ring_push (ring_shutdown (ring_init (\<lambda>_. 0))) 9 = (Returned False, ring_shutdown (ring_init (\<lambda>_. 0))) \<and>
   ring_pushed (ring_shutdown (ring_exec (ring_init (\<lambda>_. 0)) [Push 1, Push 2])) [Push 3, Pop, Push 4, Pop, Pop] = [] \<and>
   ring_popped (ring_shutdown (ring_exec (ring_init (\<lambda>_. 0)) [Push 1, Push 2])) [Push 3, Pop, Push 4, Pop, Pop] = [1, 2] \<and>
   buffer_pushed 4 ([1::int, 2], True) [Push_attempt False 3, Pop_attempt False, Pop_attempt False, Pop_attempt False] = [] \<and>
   buffer_popped 4 ([1::int, 2], True) [Push_attempt False 3, Pop_attempt False, Pop_attempt False, Pop_attempt False] = [1, 2]"
  using C5_no_push_after_shutdown [where r = "ring_init (\<lambda>_. 0)" and v = 9 and buf = "\<lambda>_. 0"
      and before = "[Push 1, Push 2]" and ops = "[Push 3, Pop, Push 4, Pop, Pop]"
      and cap = 4 and q = "[1::int, 2]"
      and bops = "[Push_attempt False 3, Pop_attempt False, Pop_attempt False, Pop_attempt False]"]
  by (simp add: ring_init_def ring_push_def ring_pop_def ring_shutdown_def QUEUE_SIZE_def
      buffer_push_def buffer_pop_def)

subsection \<open>Claim C6: draining after shutdown\<close>

lemma ring_pop_none_iff:
  "fst (ring_pop r) = Returned None \<longleftrightarrow> count r = 0 \<and> (stop_requested r \<or> force_stop r)"
  by (auto simp: ring_pop_fst)

lemma ring_drain:
  assumes "ring_inv r" "unat (count r) = n"
  shows "ring_popped r (replicate n Pop) = ring_contents r"
  using assms
proof (induction n arbitrary: r)
  case 0
  then show ?case by (simp add: ring_contents_def)
next
  case (Suc n)
  from Suc.prems(2) have ne: "count r \<noteq> 0" by (simp add: word_neq_0)
  have inv': "ring_inv (snd (ring_pop r))"
    using Suc.prems(1) by (rule ring_pop_inv)
  have "count (snd (ring_pop r)) = count r - 1"
    using ne by (simp add: ring_pop_def)
  then have "unat (count (snd (ring_pop r))) = n"
    using ne Suc.prems(2) by (simp add: unat_dec_pos)
  with inv' have "ring_popped (snd (ring_pop r)) (replicate n Pop) = ring_contents (snd (ring_pop r))"
    by (rule Suc.IH)
  moreover have "ring_contents r = buffer r (tail r) # ring_contents (snd (ring_pop r))"
    using Suc.prems(1) ne by (rule ring_pop_contents)
  ultimately show ?case using ne by (simp add: ring_pop_fst)
qed

lemma buffer_drain:
  "buffer_popped cap (q, sd) (replicate (length q) (Pop_attempt False)) = q"
  by (induction q) (simp_all add: buffer_pop_def)

lemma buffer_pop_none_iff:
  "fst (buffer_pop e sd q) = Returned None \<longleftrightarrow> e \<or> (q = [] \<and> sd)"
  by (cases q) (simp_all add: buffer_pop_def)

lemma buffer_pop_nonempty:
  "q \<noteq> [] \<Longrightarrow> buffer_pop False sd q = (Returned (Some (hd q)), tl q)"
  by (cases q) (simp_all add: buffer_pop_def)

text \<open>
  Claim C6. A pop on a non-empty queue returns the oldest item whatever the stop
  flags are. \<open>ring_pop\<close> returns nothing exactly when the ring is empty and a stop
  flag is set; a pop on a pipeline buffer returns nothing exactly when its deadline
  has passed or the buffer is empty with shutdown set. After shutdown, as many pops
  as there are items return all of them in order.
\<close>

theorem C6_pop_drains_after_shutdown:
  "(count r \<noteq> 0 \<longrightarrow> fst (ring_pop r) = Returned (Some (buffer r (tail r)))) \<and>
   (fst (ring_pop r) = Returned None \<longleftrightarrow> count r = 0 \<and> (stop_requested r \<or> force_stop r)) \<and>
   ring_popped (ring_shutdown (ring_exec (ring_init buf) ops))
       (replicate (unat (count (ring_exec (ring_init buf) ops))) Pop) =
     ring_contents (ring_exec (ring_init buf) ops) \<and>
   (count (ring_exec (ring_init buf) ops) \<noteq> 0 \<longrightarrow>
      buffer (ring_exec (ring_init buf) ops) (tail (ring_exec (ring_init buf) ops)) =
        hd (ring_contents (ring_exec (ring_init buf) ops))) \<and>
   (q \<noteq> [] \<longrightarrow> buffer_pop False sd q = (Returned (Some (hd q)), tl q)) \<and>
   (fst (buffer_pop e sd q) = Returned None \<longleftrightarrow> e \<or> (q = [] \<and> sd)) \<and>
   buffer_popped cap (q, True) (replicate (length q) (Pop_attempt False)) = q"
proof -
  let ?r = "ring_exec (ring_init buf) ops"
  have oldest: "buffer ?r (tail ?r) = hd (ring_contents ?r)" if "count ?r \<noteq> 0"
    using ring_pop_contents [OF ring_reach_inv that] by simp
  have "ring_inv (ring_shutdown ?r)"
    by (intro ring_shutdown_inv ring_reach_inv)
  moreover have "unat (count (ring_shutdown ?r)) = unat (count ?r)"
    by (simp add: ring_shutdown_def)
  ultimately have "ring_popped (ring_shutdown ?r) (replicate (unat (count ?r)) Pop) =
      ring_contents (ring_shutdown ?r)"
    by (rule ring_drain)
  then show ?thesis
    using oldest
    by (simp add: ring_shutdown_contents ring_pop_fst ring_pop_none_iff buffer_pop_nonempty
        buffer_pop_none_iff buffer_drain)
qed

text \<open>The statement above on concrete inputs.\<close>

theorem C6_pop_drains_after_shutdown_witness:
  "count (ring_shutdown (ring_exec (ring_init (\<lambda>_. 0)) [Push 4, Push 5])) \<noteq> 0 \<and>
   fst (ring_pop (ring_shutdown (ring_exec (ring_init (\<lambda>_. 0)) [Push 4, Push 5]))) = Returned (Some 4) \<and>
   fst (ring_pop (ring_shutdown (ring_init (\<lambda>_. 0)))) = Returned None \<and>
   ring_popped (ring_shutdown (ring_exec (ring_init (\<lambda>_. 0)) [Push 4, Push 5])) [Pop, Pop] = [4, 5] \<and>
   count (ring_exec (ring_init (\<lambda>_. 0)) [Push 4, Push 5]) \<noteq> 0 \<and>
   hd (ring_contents (ring_exec (ring_init (\<lambda>_. 0)) [Push 4, Push 5])) = 4 \<and>
   [7::int, 8] \<noteq> [] \<and>
   buffer_pop False True [7::int, 8] = (Returned (Some 7), [8]) \<and>
   fst (buffer_pop False True ([]::int list)) = Returned None \<and>
   buffer_popped 4 ([7::int, 8], True) [Pop_attempt False, Pop_attempt False] = [7, 8]"
  using C6_pop_drains_after_shutdown [where r = "ring_shutdown (ring_exec (ring_init (\<lambda>_. 0)) [Push 4, Push 5])"
      and buf = "\<lambda>_. 0" and ops = "[Push 4, Push 5]" and q = "[7::int, 8]" and sd = True
      and e = False and cap = 4]
    C6_pop_drains_after_shutdown [where r = "ring_shutdown (ring_init (\<lambda>_. 0))"
      and buf = "\<lambda>_. 0" and ops = "[]" and q = "[]::int list" and sd = True
      and e = False and cap = 4]
  by (simp add: ring_init_def ring_push_def ring_pop_def ring_shutdown_def QUEUE_SIZE_def
      buffer_pop_def)

subsection \<open>Claim C7: a failed push\<close>

lemma push_to_buffer_failed:
  "(fst (push_to_buffer1 e item s) \<noteq> Returned True \<longrightarrow> snd (push_to_buffer1 e item s) = s) \<and>
   (fst (push_to_buffer2 e item s) \<noteq> Returned True \<longrightarrow> snd (push_to_buffer2 e item s) = s)"
  by (simp add: push_to_buffer1_def push_to_buffer2_def buffer_push_def)

lemma ring_push_failed:
  "fst (ring_push r v) \<noteq> Returned True \<Longrightarrow> ring_queue (snd (ring_push r v)) = ring_queue r"
  by (auto simp: ring_push_def ring_queue_def split: if_splits)

text \<open>
  Claim C7. A push that does not succeed leaves the queue as it was, for the
  buffers of the pipeline and for the ring. A producer alone at a buffer of capacity
  \<open>cap\<close> with more than \<open>cap\<close> items: the first \<open>cap\<close> pushes return \<^verbatim>\<open>true\<close>, the
  next one waits and returns \<^verbatim>\<open>false\<close> when its deadline passes, and the buffer
  holds the first \<open>cap\<close> items in order. With capacity 4 that is the fifth push;
  with the program's \<open>BUFFER_SIZE\<close> it is push number 101.
\<close>

theorem C7_failed_push_changes_nothing:
  "(fst (buffer_push cap e x sd q) \<noteq> Returned True \<longrightarrow> snd (buffer_push cap e x sd q) = q) \<and>
   (fst (push_to_buffer1 e item s) \<noteq> Returned True \<longrightarrow> snd (push_to_buffer1 e item s) = s) \<and>
   (fst (push_to_buffer2 e item s) \<noteq> Returned True \<longrightarrow> snd (push_to_buffer2 e item s) = s) \<and>
   (fst (ring_push r v) \<noteq> Returned True \<longrightarrow> ring_queue (snd (ring_push r v)) = ring_queue r) \<and>
   (cap < length xs \<longrightarrow>
      produce_alone cap False [] xs = (replicate cap True @ [False], take cap xs) \<and>
      buffer_push cap False (xs ! cap) False (take cap xs) = (Waiting, take cap xs) \<and>
      buffer_push cap True (xs ! cap) False (take cap xs) = (Returned False, take cap xs)) \<and>
   (BUFFER_SIZE < length ys \<longrightarrow>
      produce_alone BUFFER_SIZE False [] ys = (replicate 100 True @ [False], take 100 ys))"
proof -
  have a: "produce_alone cap False [] xs = (replicate cap True @ [False], take cap xs)"
    if "cap < length xs"
    using produce_alone_overflow [of "[]" cap xs] that by simp
  have b: "produce_alone BUFFER_SIZE False [] ys = (replicate 100 True @ [False], take 100 ys)"
    if "BUFFER_SIZE < length ys"
    using produce_alone_overflow [of "[]" BUFFER_SIZE ys] that by (simp add: BUFFER_SIZE_def)
  show ?thesis
    using push_to_buffer_failed [of e item s] a b
    by (simp add: buffer_push_snd ring_push_failed) (simp add: buffer_push_def)
qed

text \<open>The statement above on concrete inputs.\<close>

theorem C7_failed_push_changes_nothing_witness:
  "(4::nat) < length [1::int, 2, 3, 4, 5, 6, 7, 8, 9, 10] \<and>
   produce_alone 4 False [] [1::int, 2, 3, 4, 5, 6, 7, 8, 9, 10] =
     ([True, True, True, True, False], [1, 2, 3, 4]) \<and>
   buffer_push 4 False (5::int) False [1, 2, 3, 4] = (Waiting, [1, 2, 3, 4]) \<and>
   buffer_push 4 True (5::int) False [1, 2, 3, 4] = (Returned False, [1, 2, 3, 4]) \<and>
   fst (ring_push ring_full 5) \<noteq> Returned True \<and>
   ring_queue (snd (ring_push ring_full 5)) = ring_queue ring_full \<and>
   BUFFER_SIZE < length (replicate 101 (7::int)) \<and>
   produce_alone BUFFER_SIZE False [] (replicate 101 (7::int)) =
     (replicate 100 True @ [False], replicate 100 7)"
proof -
  have "BUFFER_SIZE < length (replicate 101 (7::int))"
    by (simp add: BUFFER_SIZE_def)
  moreover have "take 100 (replicate 101 (7::int)) = replicate 100 7"
    by simp
  moreover have "fst (ring_push ring_full 5) \<noteq> Returned True"
    by (simp add: ring_full_def ring_init_def ring_push_def QUEUE_SIZE_def)
  moreover have "produce_alone 4 False [] [1::int, 2, 3, 4, 5, 6, 7, 8, 9, 10] =
     ([True, True, True, True, False], [1, 2, 3, 4])"
    by (simp add: push_alone_def whole_call_def buffer_push_def)
  moreover have "buffer_push 4 False (5::int) False [1, 2, 3, 4] = (Waiting, [1, 2, 3, 4])"
    "buffer_push 4 True (5::int) False [1, 2, 3, 4] = (Returned False, [1, 2, 3, 4])"
    by (simp_all add: buffer_push_def)
  ultimately show ?thesis
    using C7_failed_push_changes_nothing [where cap = 4 and xs = "[1::int, 2, 3, 4, 5, 6, 7, 8, 9, 10]"
      and e = True and x = "5::int" and sd = False and q = "[1::int, 2, 3, 4]"
      and r = ring_full and v = 5 and item = "demo_item 1 6 0" and s = "program_start demo_platform"
      and ys = "replicate 101 (7::int)"]
    by simp
qed

subsection \<open>Claim C8: who writes which field\<close>

text \<open>
  Claim C8. The generator builds an item with \<open>processed_value\<close> 0.0 and \<open>is_valid\<close>
  false and pushes it as built. What the processing stage does to an item is one
  update of \<open>processed_value\<close>, to the value its four statements compute, and of
  no other field; \<open>is_valid\<close> in particular stays as it was. What the filter stage
  does to an item is one update of \<open>is_valid\<close>, to whether the item passes, and of
  no other field; \<open>processed_value\<close> in particular stays as it was. In a tick the
  item meets each stage once: the processor takes the generator's item out of the
  first queue and puts the processed item into the second, and the filter takes it
  out and keeps nothing.
\<close>

theorem C8_stage_field_writes:
  "processed_value (new_DataItem P now i v) = d_zero P \<and>
   is_valid (new_DataItem P now i v) = False \<and>
   process P item =
     item\<lparr>processed_value :=
       d_add P
         (d_fabs P (d_add P (base_times_log P (raw_value item))
            (sin_times_cos P (raw_value item) (item_id item))))
         (busy_total P (raw_value item))\<rparr> \<and>
   is_valid (process P item) = is_valid item \<and>
   fst (filter_reduce P now item s) = item\<lparr>is_valid := passes_filter P item\<rparr> \<and>
   processed_value (fst (filter_reduce P now item s)) = processed_value item \<and>
   (clean s \<longrightarrow>
      stage1_to_stage2 (snd (generator_tick P k s)) =
        [new_DataItem P (clock_generate P k) (int k) (rng_draw P k)] \<and>
      stage1_to_stage2 (snd (processor_tick P (snd (generator_tick P k s)))) = [] \<and>
      stage2_to_stage3 (snd (processor_tick P (snd (generator_tick P k s)))) =
        [process P (new_DataItem P (clock_generate P k) (int k) (rng_draw P k))] \<and>
      stage2_to_stage3 (snd (filter_tick P k
        (snd (processor_tick P (snd (generator_tick P k s)))))) = [])"
proof -
  have flow: "stage1_to_stage2 (snd (generator_tick P k s)) =
        [new_DataItem P (clock_generate P k) (int k) (rng_draw P k)] \<and>
      stage1_to_stage2 (snd (processor_tick P (snd (generator_tick P k s)))) = [] \<and>
      stage2_to_stage3 (snd (processor_tick P (snd (generator_tick P k s)))) =
        [process P (new_DataItem P (clock_generate P k) (int k) (rng_draw P k))] \<and>
      stage2_to_stage3 (snd (filter_tick P k
        (snd (processor_tick P (snd (generator_tick P k s)))))) = []"
    if c: "clean s"
  proof -
    let ?item = "new_DataItem P (clock_generate P k) (int k) (rng_draw P k)"
    let ?s1 = "s\<lparr>stage1_to_stage2 := [?item],
               pipeline_stats := bump_barrier (bump_generated (pipeline_stats s))\<rparr>"
    let ?s2 = "?s1\<lparr>stage1_to_stage2 := [], stage2_to_stage3 := [process P ?item],
               pipeline_stats := bump_barrier (bump_processed (pipeline_stats ?s1))\<rparr>"
    have g: "generator_tick P k s = (True, ?s1)"
      using c by (rule generator_tick_clean)
    have p: "processor_tick P ?s1 = (True, ?s2)"
      using c by (intro processor_tick_fed) (simp_all add: clean_def)
    have f: "stage2_to_stage3 (snd (filter_tick P k ?s2)) = []"
      by (subst filter_tick_fed [where item = "process P ?item"])
        (simp_all add: filter_reduce_keeps_queues)
    show ?thesis using f by (simp add: g p)
  qed
  have u: "process P item =
     item\<lparr>processed_value :=
       d_add P
         (d_fabs P (d_add P (base_times_log P (raw_value item))
            (sin_times_cos P (raw_value item) (item_id item))))
         (busy_total P (raw_value item))\<rparr>"
    by (rule process_one_update)
  have u': "is_valid (process P item) = is_valid item"
    by (simp add: process_one_update)
  have v: "fst (filter_reduce P now item s) = item\<lparr>is_valid := passes_filter P item\<rparr>"
    by (rule filter_reduce_item)
  have v': "processed_value (fst (filter_reduce P now item s)) = processed_value item"
    by (simp add: filter_reduce_item)
  from flow u u' v v' show ?thesis
    by (simp add: new_DataItem_def)
qed

text \<open>The statement above on concrete inputs.\<close>

theorem C8_stage_field_writes_witness:
  "clean (program_start demo_platform) \<and>
   stage1_to_stage2 (snd (generator_tick demo_platform 2 (program_start demo_platform))) =
     [\<lparr>item_id = 2, raw_value = 12, processed_value = 0, is_valid = False, timestamp = 20\<rparr>] \<and>
   process demo_platform
       \<lparr>item_id = 2, raw_value = 12, processed_value = 0, is_valid = False, timestamp = 20\<rparr> =
     \<lparr>item_id = 2, raw_value = 12, processed_value = 5 / 2, is_valid = False, timestamp = 20\<rparr> \<and>
   stage2_to_stage3 (snd (processor_tick demo_platform
       (snd (generator_tick demo_platform 2 (program_start demo_platform))))) =
     [\<lparr>item_id = 2, raw_value = 12, processed_value = 5 / 2, is_valid = False, timestamp = 20\<rparr>] \<and>
   fst (filter_reduce demo_platform 24
       \<lparr>item_id = 2, raw_value = 12, processed_value = 5 / 2, is_valid = False, timestamp = 20\<rparr>
       (program_start demo_platform)) =
     \<lparr>item_id = 2, raw_value = 12, processed_value = 5 / 2, is_valid = True, timestamp = 20\<rparr>"
  using C8_stage_field_writes [where P = demo_platform and s = "program_start demo_platform"
      and k = 2 and now = 24 and i = 2 and v = 12
      and item = "\<lparr>item_id = 2, raw_value = 12, processed_value = 5 / 2, is_valid = False, timestamp = 20\<rparr>"]
    C8_stage_field_writes [where P = demo_platform and s = "program_start demo_platform"
      and k = 2 and now = 24 and i = 2 and v = 12
      and item = "\<lparr>item_id = 2, raw_value = 12, processed_value = 0, is_valid = False, timestamp = 20\<rparr>"]
  by (simp add: program_start_clean demo_platform_def new_DataItem_def
      passes_filter_def signed_modulo_int_def)

subsection \<open>Claim C10: the counters of the ring\<close>

lemma ring_push_counters:
  "(fst (ring_push r v) = Returned True \<longrightarrow>
      total_produced (snd (ring_push r v)) = total_produced r + 1 \<and>
      count (snd (ring_push r v)) = count r + 1 \<and>
      total_consumed (snd (ring_push r v)) = total_consumed r) \<and>
   (fst (ring_push r v) \<noteq> Returned True \<longrightarrow>
      total_produced (snd (ring_push r v)) = total_produced r \<and>
      count (snd (ring_push r v)) = count r \<and>
      total_consumed (snd (ring_push r v)) = total_consumed r)"
  by (simp add: ring_push_def)

lemma ring_pop_counters:
  "(fst (ring_pop r) = Returned (Some (buffer r (tail r))) \<longrightarrow>
      total_consumed (snd (ring_pop r)) = total_consumed r + 1 \<and>
      count (snd (ring_pop r)) = count r - 1 \<and>
      total_produced (snd (ring_pop r)) = total_produced r) \<and>
   (fst (ring_pop r) \<noteq> Returned (Some (buffer r (tail r))) \<longrightarrow>
      total_consumed (snd (ring_pop r)) = total_consumed r \<and>
      count (snd (ring_pop r)) = count r \<and>
      total_produced (snd (ring_pop r)) = total_produced r)"
  by (simp add: ring_pop_def)

text \<open>
  Claim C10. From the empty ring, after any number \<open>n\<close> of the calls of any
  sequence, \<open>total_produced - total_consumed = count\<close>. A push that succeeds adds one
  to \<open>total_produced\<close> and to \<open>count\<close>, a pop that succeeds adds one to
  \<open>total_consumed\<close> and takes one from \<open>count\<close>, and a call that does not succeed
  changes none of the three.
\<close>

theorem C10_ring_counters:
  "total_produced (ring_exec (ring_init buf) (take n ops)) -
     total_consumed (ring_exec (ring_init buf) (take n ops)) =
     uint (count (ring_exec (ring_init buf) (take n ops))) \<and>
   (fst (ring_push r v) = Returned True \<longrightarrow>
      total_produced (snd (ring_push r v)) = total_produced r + 1 \<and>
      count (snd (ring_push r v)) = count r + 1 \<and>
      total_consumed (snd (ring_push r v)) = total_consumed r) \<and>
   (fst (ring_push r' v) \<noteq> Returned True \<longrightarrow>
      total_produced (snd (ring_push r' v)) = total_produced r' \<and>
      count (snd (ring_push r' v)) = count r' \<and>
      total_consumed (snd (ring_push r' v)) = total_consumed r') \<and>
   (fst (ring_pop r) = Returned (Some (buffer r (tail r))) \<longrightarrow>
      total_consumed (snd (ring_pop r)) = total_consumed r + 1 \<and>
      count (snd (ring_pop r)) = count r - 1 \<and>
      total_produced (snd (ring_pop r)) = total_produced r) \<and>
   (fst (ring_pop r') \<noteq> Returned (Some (buffer r' (tail r'))) \<longrightarrow>
      total_consumed (snd (ring_pop r')) = total_consumed r' \<and>
      count (snd (ring_pop r')) = count r' \<and>
      total_produced (snd (ring_pop r')) = total_produced r')"
proof -
  have "ring_accounted (ring_exec (ring_init buf) (take n ops))"
    by (rule ring_reach_accounted)
  then have "total_produced (ring_exec (ring_init buf) (take n ops)) -
     total_consumed (ring_exec (ring_init buf) (take n ops)) =
     uint (count (ring_exec (ring_init buf) (take n ops)))"
    by (simp add: ring_accounted_def)
  then show ?thesis
    using ring_push_counters [of r v] ring_push_counters [of r' v]
      ring_pop_counters [of r] ring_pop_counters [of r']
    by blast
qed

text \<open>The statement above on concrete inputs.\<close>

theorem C10_ring_counters_witness:
  "total_produced (ring_exec (ring_init (\<lambda>_. 0)) (take 4 [Push 1, Push 2, Pop, Push 3, Pop])) = 3 \<and>
   total_consumed (ring_exec (ring_init (\<lambda>_. 0)) (take 4 [Push 1, Push 2, Pop, Push 3, Pop])) = 1 \<and>
   uint (count (ring_exec (ring_init (\<lambda>_. 0)) (take 4 [Push 1, Push 2, Pop, Push 3, Pop]))) = 2 \<and>
   fst (ring_push (ring_exec (ring_init (\<lambda>_. 0)) [Push 1]) 2) = Returned True \<and>
   total_produced (snd (ring_push (ring_exec (ring_init (\<lambda>_. 0)) [Push 1]) 2)) = 2 \<and>
   count (snd (ring_push (ring_exec (ring_init (\<lambda>_. 0)) [Push 1]) 2)) = 2 \<and>
   fst (ring_pop (ring_exec (ring_init (\<lambda>_. 0)) [Push 1])) = Returned (Some 1) \<and>
   total_consumed (snd (ring_pop (ring_exec (ring_init (\<lambda>_. 0)) [Push 1]))) = 1 \<and>
   count (snd (ring_pop (ring_exec (ring_init (\<lambda>_. 0)) [Push 1]))) = 0 \<and>
   fst (ring_push ring_full 2) \<noteq> Returned True \<and>
   total_produced (snd (ring_push ring_full 2)) = 1024 \<and>
   count (snd (ring_push ring_full 2)) = 1024 \<and>
   fst (ring_pop ring_full) = Returned (Some 0) \<and>
   fst (ring_pop (ring_init (\<lambda>_. 0))) \<noteq> Returned (Some 0) \<and>
   total_consumed (snd (ring_pop (ring_init (\<lambda>_. 0)))) = 0 \<and>
   count (snd (ring_pop (ring_init (\<lambda>_. 0)))) = 0"
  using C10_ring_counters [where buf = "\<lambda>_. 0" and n = 4 and ops = "[Push 1, Push 2, Pop, Push 3, Pop]"
      and r = "ring_exec (ring_init (\<lambda>_. 0)) [Push 1]" and v = 2 and r' = ring_full]
    C10_ring_counters [where buf = "\<lambda>_. 0" and n = 0 and ops = "[]"
      and r = ring_full and v = 2 and r' = "ring_init (\<lambda>_. 0)"]
  by (simp add: ring_full_def ring_init_def ring_push_def ring_pop_def QUEUE_SIZE_def)

end
